theory Spec2Isabelle
  imports Complex_Main
begin

section \<open>The CoScale autoscaler: data model\<close>

text \<open>
  The development embeds \<^verbatim>\<open>src/autoscaler.py\<close>. The external collaborators (the CoScale
  command line client, the Kubernetes API and the wall clock) are not part of the program;
  what they answer during one call of \<^verbatim>\<open>Scaler.run\<close> is collected in a record
  (\<open>tick\<close> below), and every call the program makes to them is written to a trace of
  events. Times and metric values are Python floats; they are modelled as reals, the
  program only adds, divides once and compares them. Replica counts, identifiers and the
  configured numbers of seconds are Python integers.
\<close>

datatype error =
    KeyError string
  | CalledProcessError
  | ApiException
  | ZeroDivisionError
  | Exception string

record metric =
  metric_id :: int
  metric_unit :: string

record server_group =
  group_id :: int

text \<open>One element of the list that \<^verbatim>\<open>coscale-cli data get\<close> prints: the samples of a window
  are (timestamp, value) pairs under the key \<^verbatim>\<open>values\<close>.\<close>

record window =
  window_values :: "(real \<times> real) list"

text \<open>The fields of a \<^verbatim>\<open>Scaler\<close> object. Only \<open>last_scaling\<close> is ever assigned after the
  constructor.\<close>

record scaler =
  namespace_name :: string
  deployment_name :: string
  deployment_type :: string
  metric_name :: string
  low_value :: real
  high_value :: real
  avg_interval :: int
  backoff :: int
  min_replicas :: int
  max_replicas :: int
  metric :: metric
  server_group :: server_group
  last_scaling :: real

text \<open>
  What the outside world answers during one call of \<^verbatim>\<open>run\<close>, each field read only if the
  program reaches the call:
  \<^item> \<open>t_run\<close>: the value of \<^verbatim>\<open>time.time()\<close> in \<^verbatim>\<open>run\<close>;
  \<^item> \<open>metric_data\<close>: the outcome of \<^verbatim>\<open>cli.get_metric_data\<close> (a raised exception or the list
    of windows);
  \<^item> \<open>scale_read\<close>: the outcome of \<^verbatim>\<open>read_namespaced_deployment_scale\<close>, reduced to
    \<^verbatim>\<open>resp.status.replicas\<close>;
  \<^item> \<open>replace_result\<close>: the outcome of \<^verbatim>\<open>replace_namespaced_deployment_scale\<close> (\<open>None\<close> when
    it returns, the exception otherwise);
  \<^item> \<open>t_scaled\<close>: the value of \<^verbatim>\<open>time.time()\<close> in \<^verbatim>\<open>scale\<close>;
  \<^item> \<open>duration\<close>: the time the whole call takes on the scheduler's clock.
\<close>

record tick =
  t_run :: real
  metric_data :: "error + window list"
  scale_read :: "error + int"
  replace_result :: "error option"
  t_scaled :: real
  duration :: real

text \<open>
  One item of the JSON list in \<^verbatim>\<open>SCALER_CONFIG\<close>. A key that is absent is \<open>None\<close>; looking it
  up raises \<^verbatim>\<open>KeyError\<close>, except \<^verbatim>\<open>deployment_type\<close>, which has a default. The keys of the
  nested \<^verbatim>\<open>metric\<close> object are flattened, and the values are taken to be of the type that
  \<^verbatim>\<open>float()\<close> and \<^verbatim>\<open>int()\<close> accept.
\<close>

record config_item =
  cfg_namespace_name :: "string option"
  cfg_deployment_name :: "string option"
  cfg_deployment_type :: "string option"
  cfg_metric_name :: "string option"
  cfg_low_value :: "real option"
  cfg_high_value :: "real option"
  cfg_avg_interval_sec :: "int option"
  cfg_scale_backoff_sec :: "int option"
  cfg_min_replicas :: "int option"
  cfg_max_replicas :: "int option"

datatype log_line =
    Checking "real option"
  | FailedToRetrieve
  | ReachedMin int
  | ReachedMax int
  | InBackoff
  | Scaling int
  | ExceptionWhileRunning error
  | Starting
  | FailedToInitialise config_item error

text \<open>The calls that leave the process, and the log lines, in program order.\<close>

datatype event =
    GetMetricData int int int int
  | ReadScale string string
  | ReplaceScale string string int
  | Log log_line

fun fetches :: "event list \<Rightarrow> event list" where
  "fetches [] = []"
| "fetches (GetMetricData m g a b # es) = GetMetricData m g a b # fetches es"
| "fetches (_ # es) = fetches es"

fun reads :: "event list \<Rightarrow> event list" where
  "reads [] = []"
| "reads (ReadScale d n # es) = ReadScale d n # reads es"
| "reads (_ # es) = reads es"

fun writes :: "event list \<Rightarrow> int list" where
  "writes [] = []"
| "writes (ReplaceScale d n r # es) = r # writes es"
| "writes (_ # es) = writes es"

fun logged :: "event list \<Rightarrow> log_line list" where
  "logged [] = []"
| "logged (Log l # es) = l # logged es"
| "logged (_ # es) = logged es"

section \<open>Scaler\<close>

text \<open>Python's \<^verbatim>\<open>/\<close> on numbers raises on a zero divisor.\<close>

definition truediv :: "real \<Rightarrow> real \<Rightarrow> error + real" where
  "truediv a b = (if b = 0 then Inl ZeroDivisionError else Inr (a / b))"

text \<open>\<^verbatim>\<open>Scaler.metric_value\<close>. The trace is returned with the value; an exception of the
  client leaves the method as it is.\<close>

definition metric_value :: "scaler \<Rightarrow> tick \<Rightarrow> event list \<times> (error + real option)" where
  "metric_value self tk =
     (let call = GetMetricData (metric_id (metric self)) (group_id (server_group self))
                   (- avg_interval self - 60) 0
      in case metric_data tk of
           Inl e \<Rightarrow> ([call], Inl e)
         | Inr md \<Rightarrow>
             if length md \<noteq> 1 then ([call], Inr None)
             else
               let pairs = window_values (hd md) in
               if length pairs = 0 then ([call], Inr None)
               else
                 (case truediv (sum_list (map snd pairs)) (real (length pairs)) of
                    Inl e \<Rightarrow> ([call], Inl e)
                  | Inr v \<Rightarrow> ([call], Inr (Some v))))"

text \<open>\<^verbatim>\<open>Scaler.current_replicas\<close>.\<close>

definition current_replicas :: "scaler \<Rightarrow> tick \<Rightarrow> event list \<times> (error + int)" where
  "current_replicas self tk =
     ([ReadScale (deployment_name self) (namespace_name self)], scale_read tk)"

text \<open>\<^verbatim>\<open>Scaler.scale\<close>: the log line, the replace call, and only then the assignment of
  \<open>last_scaling\<close>, from a fresh reading of the clock.\<close>

definition scale :: "scaler \<Rightarrow> tick \<Rightarrow> int \<Rightarrow> event list \<times> (error + unit) \<times> scaler" where
  "scale self tk replicas =
     (let ev = [Log (Scaling replicas),
                ReplaceScale (deployment_name self) (namespace_name self) replicas]
      in case replace_result tk of
           Some e \<Rightarrow> (ev, Inl e, self)
         | None \<Rightarrow> (ev, Inr (), self\<lparr>last_scaling := t_scaled tk\<rparr>))"

text \<open>
  \<^verbatim>\<open>Scaler.run\<close>. The line \<^verbatim>\<open>logging.info('Checking %s : %f %s', ...)\<close> comes before the test
  for \<^verbatim>\<open>None\<close>; with \<^verbatim>\<open>None\<close> the record cannot be formatted, which the logging module
  reports on stderr without raising, so the method goes on in both cases.
\<close>

definition run :: "scaler \<Rightarrow> tick \<Rightarrow> event list \<times> (error + unit) \<times> scaler" where
  "run self tk =
     (if t_run tk > last_scaling self + real_of_int (backoff self) then
        (case metric_value self tk of
           (ev1, Inl e) \<Rightarrow> (ev1, Inl e, self)
         | (ev1, Inr current_value) \<Rightarrow>
             let ev2 = ev1 @ [Log (Checking current_value)] in
             (case current_value of
                None \<Rightarrow> (ev2 @ [Log FailedToRetrieve], Inr (), self)
              | Some v \<Rightarrow>
                  if v < low_value self then
                    (case current_replicas self tk of
                       (ev3, Inl e) \<Rightarrow> (ev2 @ ev3, Inl e, self)
                     | (ev3, Inr replicas) \<Rightarrow>
                         if replicas > min_replicas self then
                           (case scale self tk (replicas - 1) of
                              (ev4, r, self') \<Rightarrow> (ev2 @ ev3 @ ev4, r, self'))
                         else
                           (ev2 @ ev3 @ [Log (ReachedMin (min_replicas self))], Inr (), self))
                  else if v > high_value self then
                    (case current_replicas self tk of
                       (ev3, Inl e) \<Rightarrow> (ev2 @ ev3, Inl e, self)
                     | (ev3, Inr replicas) \<Rightarrow>
                         if replicas < max_replicas self then
                           (case scale self tk (replicas + 1) of
                              (ev4, r, self') \<Rightarrow> (ev2 @ ev3 @ ev4, r, self'))
                         else
                           (ev2 @ ev3 @ [Log (ReachedMax (max_replicas self))], Inr (), self))
                  else (ev2, Inr (), self)))
      else ([Log InBackoff], Inr (), self))"

text \<open>The three components of what a call did.\<close>

definition trace_of :: "event list \<times> (error + 'a) \<times> scaler \<Rightarrow> event list" where
  "trace_of r = fst r"

definition outcome_of :: "event list \<times> (error + 'a) \<times> scaler \<Rightarrow> error + 'a" where
  "outcome_of r = fst (snd r)"

definition state_of :: "event list \<times> (error + 'a) \<times> scaler \<Rightarrow> scaler" where
  "state_of r = snd (snd r)"

section \<open>Scaler construction\<close>

text \<open>
  Everything outside the process: whether \<^verbatim>\<open>coscale-cli config set\<close> fails, the lists that
  \<^verbatim>\<open>metric get\<close> and \<^verbatim>\<open>servergroup get\<close> print, the reading of the scheduler's clock when
  the scheduler is created, and the answers to the calls of \<^verbatim>\<open>run\<close>, numbered in the order
  in which the process makes them.
\<close>

record environment =
  set_config :: "error option"
  metric_get :: "string \<Rightarrow> error + metric list"
  servergroup_get :: "string \<Rightarrow> error + server_group list"
  start_clock :: real
  answers :: "nat \<Rightarrow> tick"

text \<open>\<^verbatim>\<open>CliWrapper.get_metric_by_name\<close> and \<^verbatim>\<open>CliWrapper.get_server_group\<close>.\<close>

definition get_metric_by_name :: "environment \<Rightarrow> string \<Rightarrow> error + metric option" where
  "get_metric_by_name env name =
     (case metric_get env name of
        Inl e \<Rightarrow> Inl e
      | Inr resp \<Rightarrow> Inr (if length resp = 0 then None else Some (hd resp)))"

definition get_server_group :: "environment \<Rightarrow> string \<Rightarrow> error + server_group option" where
  "get_server_group env path =
     (case servergroup_get env path of
        Inl e \<Rightarrow> Inl e
      | Inr resp \<Rightarrow> Inr (if length resp = 0 then None else Some (hd resp)))"

text \<open>\<^verbatim>\<open>config[key]\<close>.\<close>

definition lookup :: "string \<Rightarrow> 'a option \<Rightarrow> error + 'a" where
  "lookup key field = (case field of None \<Rightarrow> Inl (KeyError key) | Some v \<Rightarrow> Inr v)"

text \<open>Sequencing of steps that may raise.\<close>

definition and_then :: "error + 'a \<Rightarrow> ('a \<Rightarrow> error + 'b) \<Rightarrow> error + 'b" where
  "and_then m f = (case m of Inl e \<Rightarrow> Inl e | Inr v \<Rightarrow> f v)"

text \<open>\<^verbatim>\<open>Scaler.__init__\<close>, in the order of its statements.\<close>

definition Scaler_init :: "config_item \<Rightarrow> environment \<Rightarrow> error + scaler" where
  "Scaler_init config env =
     and_then (lookup ''namespace_name'' (cfg_namespace_name config)) (\<lambda>ns.
     and_then (lookup ''deployment_name'' (cfg_deployment_name config)) (\<lambda>dn.
     let dt = (case cfg_deployment_type config of None \<Rightarrow> ''Deployments'' | Some t \<Rightarrow> t) in
     and_then (lookup ''name'' (cfg_metric_name config)) (\<lambda>mn.
     and_then (lookup ''low_value'' (cfg_low_value config)) (\<lambda>lo.
     and_then (lookup ''high_value'' (cfg_high_value config)) (\<lambda>hi.
     and_then (lookup ''avg_interval_sec'' (cfg_avg_interval_sec config)) (\<lambda>ai.
     and_then (lookup ''scale_backoff_sec'' (cfg_scale_backoff_sec config)) (\<lambda>bo.
     and_then (lookup ''min_replicas'' (cfg_min_replicas config)) (\<lambda>mi.
     and_then (lookup ''max_replicas'' (cfg_max_replicas config)) (\<lambda>ma.
     and_then (get_metric_by_name env mn) (\<lambda>m.
     case m of
       None \<Rightarrow> Inl (Exception (''Could not find metric '' @ mn))
     | Some the_metric \<Rightarrow>
         let group_path = ''Kubernetes/Namespaces/'' @ ns @ ''/'' @ dt @ ''/'' @ dn in
         and_then (get_server_group env group_path) (\<lambda>g.
         case g of
           None \<Rightarrow> Inl (Exception (''Could not find server group '' @ group_path))
         | Some the_group \<Rightarrow>
             Inr \<lparr>namespace_name = ns, deployment_name = dn, deployment_type = dt,
                  metric_name = mn, low_value = lo, high_value = hi, avg_interval = ai,
                  backoff = bo, min_replicas = mi, max_replicas = ma,
                  metric = the_metric, server_group = the_group,
                  last_scaling = 0\<rparr>)))))))))))"

section \<open>The scheduler\<close>

text \<open>
  \<^verbatim>\<open>sched.scheduler\<close> of the Python library, as far as the program uses it: a queue of
  events ordered by time, then priority, then order of entry; \<^verbatim>\<open>enter\<close> adds an event due
  \<open>delay\<close> after the present reading of the clock; \<^verbatim>\<open>run\<close> takes the earliest event, sleeps
  until it is due and then calls its action, in the one thread of the process, until the
  queue is empty. Every action of this program is \<^verbatim>\<open>run_and_schedule\<close>, so an event holds
  only the address of the \<^verbatim>\<open>Scaler\<close> it is for. The scheduler's clock is
  \<^verbatim>\<open>time.monotonic\<close>, not the wall clock that \<^verbatim>\<open>Scaler.run\<close> reads; a call of \<^verbatim>\<open>run\<close> advances
  it by the \<open>duration\<close> that the environment gives, the constructor of a \<^verbatim>\<open>Scaler\<close> is taken
  to cost no time, and \<^verbatim>\<open>time.sleep\<close> is taken to last exactly as long as asked.
\<close>

record sched_event =
  ev_time :: real
  ev_priority :: int
  ev_seq :: nat
  ev_target :: nat

text \<open>
  The state of the process: the scheduler's clock and queue, the \<^verbatim>\<open>Scaler\<close> objects by
  address, and what has happened so far: the trace of all events, and for every call of
  \<^verbatim>\<open>Scaler.run\<close> (newest first) its target and the clock when it started and when it
  returned.
\<close>

record world =
  clock :: real
  queue :: "sched_event list"
  next_seq :: nat
  heap :: "scaler list"
  journal :: "event list"
  timeline :: "(nat \<times> real \<times> real) list"

definition before :: "sched_event \<Rightarrow> sched_event \<Rightarrow> bool" where
  "before a b =
     (ev_time a < ev_time b \<or>
      (ev_time a = ev_time b \<and>
        (ev_priority a < ev_priority b \<or>
         (ev_priority a = ev_priority b \<and> ev_seq a < ev_seq b))))"

fun earliest :: "sched_event list \<Rightarrow> sched_event option" where
  "earliest [] = None"
| "earliest (e # es) =
     (case earliest es of
        None \<Rightarrow> Some e
      | Some m \<Rightarrow> if before m e then Some m else Some e)"

text \<open>\<^verbatim>\<open>scheduler.enter(delay, priority, run_and_schedule, argument=(scaler, ...))\<close>.\<close>

definition enter :: "real \<Rightarrow> int \<Rightarrow> nat \<Rightarrow> world \<Rightarrow> world" where
  "enter delay priority a w =
     w\<lparr>queue := queue w @
          [\<lparr>ev_time = clock w + delay, ev_priority = priority,
            ev_seq = next_seq w, ev_target = a\<rparr>],
       next_seq := Suc (next_seq w)\<rparr>"

text \<open>
  \<^verbatim>\<open>run_and_schedule\<close>: the call of \<^verbatim>\<open>run\<close> on the object at address \<open>a\<close>, the handler that
  logs an exception, and in any case the entry of the next event, after the call has
  returned. The answers of the outside world to this call are those numbered by the calls
  made so far. An event is only ever entered for an object that exists, so the address is
  within the heap.
\<close>

definition run_and_schedule :: "environment \<Rightarrow> int \<Rightarrow> world \<Rightarrow> nat \<Rightarrow> world" where
  "run_and_schedule env interval w a =
     (let tk = answers env (length (timeline w));
          r = run (heap w ! a) tk;
          ev = (case outcome_of r of
                  Inl e \<Rightarrow> trace_of r @ [Log (ExceptionWhileRunning e)]
                | Inr _ \<Rightarrow> trace_of r);
          finished = clock w + duration tk
      in enter (real_of_int interval) 1 a
           (w\<lparr>clock := finished,
              heap := (heap w)[a := state_of r],
              journal := journal w @ ev,
              timeline := (a, clock w, finished) # timeline w\<rparr>))"

text \<open>The \<^verbatim>\<open>for\<close> loop of \<^verbatim>\<open>run_scalers\<close>.\<close>

fun start_scalers :: "environment \<Rightarrow> int \<Rightarrow> config_item list \<Rightarrow> world \<Rightarrow> world" where
  "start_scalers env interval [] w = w"
| "start_scalers env interval (item # config) w =
     (case Scaler_init item env of
        Inl e \<Rightarrow>
          start_scalers env interval config
            (w\<lparr>journal := journal w @
                 [Log (FailedToInitialise item e)]\<rparr>)
      | Inr scaler \<Rightarrow>
          start_scalers env interval config
            (run_and_schedule env interval
               (w\<lparr>heap := heap w @ [scaler], journal := journal w @ [Log Starting]\<rparr>)
               (length (heap w))))"

text \<open>One pass through the loop of \<^verbatim>\<open>scheduler.run()\<close>; \<open>None\<close> when the queue is empty and
  the loop is left.\<close>

definition sched_step :: "environment \<Rightarrow> int \<Rightarrow> world \<Rightarrow> world option" where
  "sched_step env interval w =
     (case earliest (queue w) of
        None \<Rightarrow> None
      | Some e \<Rightarrow>
          if ev_time e > clock w then Some (w\<lparr>clock := clock w + (ev_time e - clock w)\<rparr>)
          else Some (run_and_schedule env interval
                       (w\<lparr>queue := remove1 e (queue w)\<rparr>) (ev_target e)))"

text \<open>\<^verbatim>\<open>scheduler.run()\<close> for at most \<open>n\<close> passes: the state reached, and whether the loop
  was left.\<close>

fun sched_run :: "nat \<Rightarrow> environment \<Rightarrow> int \<Rightarrow> world \<Rightarrow> world \<times> bool" where
  "sched_run 0 env interval w = (w, False)"
| "sched_run (Suc n) env interval w =
     (case sched_step env interval w of
        None \<Rightarrow> (w, True)
      | Some w' \<Rightarrow> sched_run n env interval w')"

text \<open>\<^verbatim>\<open>run_scalers\<close>, observed after \<open>n\<close> passes of the scheduler's loop.\<close>

definition run_scalers :: "nat \<Rightarrow> environment \<Rightarrow> config_item list \<Rightarrow> int \<Rightarrow> error + world \<times> bool" where
  "run_scalers n env config interval =
     (case set_config env of
        Some e \<Rightarrow> Inl e
      | None \<Rightarrow>
          Inr (sched_run n env interval
                 (start_scalers env interval config
                    \<lparr>clock = start_clock env, queue = [], next_seq = 0, heap = [],
                     journal = [], timeline = []\<rparr>)))"

section \<open>Observations\<close>

text \<open>A sequence of calls of \<^verbatim>\<open>run\<close> on one object: the object after each call.\<close>

fun run_all :: "scaler \<Rightarrow> tick list \<Rightarrow> scaler list" where
  "run_all self [] = []"
| "run_all self (tk # tks) = state_of (run self tk) # run_all (state_of (run self tk)) tks"

text \<open>The readings of the wall clock that such a sequence of calls can make, in program
  order.\<close>

fun readings :: "tick list \<Rightarrow> real list" where
  "readings [] = []"
| "readings (tk # tks) = t_run tk # t_scaled tk # readings tks"

text \<open>The clock at the return of the latest call of \<^verbatim>\<open>run\<close> for the target at \<open>a\<close>.\<close>

fun previous_end :: "nat \<Rightarrow> (nat \<times> real \<times> real) list \<Rightarrow> real option" where
  "previous_end a [] = None"
| "previous_end a ((b, started, finished) # rest) =
     (if a = b then Some finished else previous_end a rest)"

text \<open>Every call for a target starts exactly \<open>d\<close> after the return of the target's call
  before it.\<close>

fun on_cadence :: "real \<Rightarrow> (nat \<times> real \<times> real) list \<Rightarrow> bool" where
  "on_cadence d [] = True"
| "on_cadence d ((a, started, finished) # rest) =
     ((case previous_end a rest of None \<Rightarrow> True | Some p \<Rightarrow> started = p + d)
      \<and> on_cadence d rest)"

text \<open>The latest call, if there is one, has returned by the time \<open>t\<close>.\<close>

fun returned_by :: "real \<Rightarrow> (nat \<times> real \<times> real) list \<Rightarrow> bool" where
  "returned_by t [] = True"
| "returned_by t ((b, started, finished) # rest) = (finished \<le> t)"

text \<open>No call starts before the call before it, of whatever target, has returned.\<close>

fun one_at_a_time :: "(nat \<times> real \<times> real) list \<Rightarrow> bool" where
  "one_at_a_time [] = True"
| "one_at_a_time ((a, started, finished) # rest) =
     (returned_by started rest \<and> one_at_a_time rest)"

text \<open>Every event in the queue is due exactly \<open>d\<close> after the return of the latest call for
  its target.\<close>

definition due_after_completion :: "real \<Rightarrow> world \<Rightarrow> bool" where
  "due_after_completion d w =
     list_all (\<lambda>e. case previous_end (ev_target e) (timeline w) of
                      None \<Rightarrow> False
                    | Some p \<Rightarrow> ev_time e = p + d) (queue w)"

text \<open>The latest call, if there is one, returned at the time \<open>t\<close>.\<close>

fun returned_at :: "real \<Rightarrow> (nat \<times> real \<times> real) list \<Rightarrow> bool" where
  "returned_at t [] = True"
| "returned_at t ((b, started, finished) # rest) = (finished = t)"

text \<open>A call that is due at \<open>due\<close> starts at \<open>t\<close>: at the time it is due when the call made
  before it, of whatever target, has returned by then, and at the return of that call
  otherwise.\<close>

fun starts_at :: "real \<Rightarrow> real \<Rightarrow> (nat \<times> real \<times> real) list \<Rightarrow> bool" where
  "starts_at t due [] = (t = due)"
| "starts_at t due ((b, started, finished) # rest) = (t = max due finished)"

text \<open>Every call for a target that has been called before is due \<open>d\<close> after the return of
  the target's call before it, and starts as said above.\<close>

fun on_time :: "real \<Rightarrow> (nat \<times> real \<times> real) list \<Rightarrow> bool" where
  "on_time d [] = True"
| "on_time d ((a, started, finished) # rest) =
     ((case previous_end a rest of None \<Rightarrow> True | Some p \<Rightarrow> starts_at started (p + d) rest)
      \<and> on_time d rest)"

text \<open>
  What holds of the state of the process at every moment (the theorems below show it):
  calls start on time and follow one another, every event in the queue is due as said
  above, no target has two events, the clock has passed the return of the latest call,
  and events and calls are for objects that exist.
\<close>

definition well_scheduled :: "real \<Rightarrow> world \<Rightarrow> bool" where
  "well_scheduled d w =
     (on_time d (timeline w) \<and> one_at_a_time (timeline w) \<and> due_after_completion d w
      \<and> distinct (map ev_target (queue w))
      \<and> returned_by (clock w) (timeline w)
      \<and> list_all (\<lambda>e. ev_target e < length (heap w)) (queue w)
      \<and> list_all (\<lambda>r. fst r < length (heap w)) (timeline w))"

text \<open>The clock stands at the return of the latest call, or, after a sleep of the scheduler,
  at the time the earliest event is due.\<close>

definition settled :: "world \<Rightarrow> bool" where
  "settled w =
     (returned_at (clock w) (timeline w)
      \<or> map_option ev_time (earliest (queue w)) = Some (clock w))"

text \<open>The queue is in the order in which the scheduler takes the events: every event is
  before those entered after it. No event is due later than \<open>d\<close> after the present time,
  and all have the priority that \<^verbatim>\<open>run_and_schedule\<close> gives.\<close>

definition fifo :: "real \<Rightarrow> world \<Rightarrow> bool" where
  "fifo d w =
     (sorted_wrt before (queue w)
      \<and> list_all (\<lambda>e. ev_seq e < next_seq w \<and> ev_priority e = 1 \<and> ev_time e \<le> clock w + d)
           (queue w))"

text \<open>The number of calls made for the target at \<open>a\<close>.\<close>

definition calls_of :: "nat \<Rightarrow> (nat \<times> real \<times> real) list \<Rightarrow> nat" where
  "calls_of a rs = length (filter (\<lambda>r. fst r = a) rs)"

text \<open>The objects made from the items of the configuration for which the constructor
  returns.\<close>

fun constructed :: "environment \<Rightarrow> config_item list \<Rightarrow> scaler list" where
  "constructed env [] = []"
| "constructed env (item # config) =
     (case Scaler_init item env of
        Inl e \<Rightarrow> constructed env config
      | Inr s \<Rightarrow> s # constructed env config)"

text \<open>Every object has an event in the queue and has been called, and every event in the
  queue is for an object.\<close>

definition all_armed :: "world \<Rightarrow> bool" where
  "all_armed w =
     (set (map ev_target (queue w)) = set [0..<length (heap w)]
      \<and> list_all (\<lambda>a. a \<in> set (map fst (timeline w))) [0..<length (heap w)])"

section \<open>Example inputs\<close>

text \<open>The target of the scenarios: bounds 10 and 50, averaging over 300 seconds, a backoff
  of 600 seconds, between 1 and 5 replicas.\<close>

definition example_scaler :: scaler where
  "example_scaler =
     \<lparr>namespace_name = ''default'', deployment_name = ''web'',
      deployment_type = ''Deployments'', metric_name = ''cpu'',
      low_value = 10, high_value = 50, avg_interval = 300, backoff = 600,
      min_replicas = 1, max_replicas = 5,
      metric = \<lparr>metric_id = 7, metric_unit = ''%''\<rparr>,
      server_group = \<lparr>group_id = 3\<rparr>,
      last_scaling = 0\<rparr>"

text \<open>A call at time 1000 that sees one window with the two samples given, \<open>n\<close> replicas,
  and a replace call that returns at time 1001.\<close>

definition example_tick :: "real \<Rightarrow> real \<Rightarrow> int \<Rightarrow> tick" where
  "example_tick x y n =
     \<lparr>t_run = 1000,
      metric_data = Inr [\<lparr>window_values = [(940, x), (1000, y)]\<rparr>],
      scale_read = Inr n, replace_result = None, t_scaled = 1001, duration = 1\<rparr>"

definition example_item :: "string \<Rightarrow> config_item" where
  "example_item name =
     \<lparr>cfg_namespace_name = Some ''default'', cfg_deployment_name = Some ''web'',
      cfg_deployment_type = None, cfg_metric_name = Some name,
      cfg_low_value = Some 10, cfg_high_value = Some 50,
      cfg_avg_interval_sec = Some 300, cfg_scale_backoff_sec = Some 600,
      cfg_min_replicas = Some 1, cfg_max_replicas = Some 5\<rparr>"

text \<open>An environment that knows the metric \<^verbatim>\<open>cpu\<close> only, and in which the \<open>k\<close>-th call of
  \<^verbatim>\<open>run\<close> sees an average of 30 and takes \<open>slow k\<close> seconds.\<close>

definition example_env :: "(nat \<Rightarrow> real) \<Rightarrow> environment" where
  "example_env slow =
     \<lparr>set_config = None,
      metric_get = (\<lambda>name. if name = ''cpu''
                            then Inr [\<lparr>metric_id = 7, metric_unit = ''%''\<rparr>] else Inr []),
      servergroup_get = (\<lambda>path. Inr [\<lparr>group_id = 3\<rparr>]),
      start_clock = 0,
      answers = (\<lambda>k. (example_tick 20 40 2)\<lparr>duration := slow k\<rparr>)\<rparr>"

text \<open>The lengths of the calls in an example where the second call of the first target
  is slow.\<close>

definition example_slow :: "nat \<Rightarrow> real" where
  "example_slow k = (if k = 1 then 10 else if k = 2 then 100 else 0)"

section \<open>One evaluation, case by case\<close>

lemma fetches_append [simp]: "fetches (xs @ ys) = fetches xs @ fetches ys"
  by (induction xs rule: fetches.induct) simp_all

lemma reads_append [simp]: "reads (xs @ ys) = reads xs @ reads ys"
  by (induction xs rule: reads.induct) simp_all

lemma writes_append [simp]: "writes (xs @ ys) = writes xs @ writes ys"
  by (induction xs rule: writes.induct) simp_all

lemma logged_append [simp]: "logged (xs @ ys) = logged xs @ logged ys"
  by (induction xs rule: logged.induct) simp_all

lemma metric_value_trace:
  "fst (metric_value self tk) =
     [GetMetricData (metric_id (metric self)) (group_id (server_group self))
        (- avg_interval self - 60) 0]"
  by (simp add: metric_value_def Let_def truediv_def split: sum.splits)

lemma metric_value_result:
  "snd (metric_value self tk) =
     (case metric_data tk of
        Inl e \<Rightarrow> Inl e
      | Inr md \<Rightarrow>
          Inr (if length md = 1 \<and> window_values (hd md) \<noteq> []
               then Some (sum_list (map snd (window_values (hd md)))
                            / real (length (window_values (hd md))))
               else None))"
  by (simp add: metric_value_def Let_def truediv_def split: sum.splits)

lemma run_in_backoff:
  "t_run tk \<le> last_scaling self + real_of_int (backoff self) \<Longrightarrow>
   run self tk = ([Log InBackoff], Inr (), self)"
  by (simp add: run_def)

lemma run_no_value:
  assumes "last_scaling self + real_of_int (backoff self) < t_run tk"
      and "snd (metric_value self tk) = Inr None"
  shows "run self tk =
           (fst (metric_value self tk) @ [Log (Checking None), Log FailedToRetrieve],
            Inr (), self)"
  using assms by (cases "metric_value self tk") (simp add: run_def)

lemma run_within:
  assumes "last_scaling self + real_of_int (backoff self) < t_run tk"
      and "snd (metric_value self tk) = Inr (Some v)"
      and "low_value self \<le> v" and "v \<le> high_value self"
  shows "run self tk = (fst (metric_value self tk) @ [Log (Checking (Some v))], Inr (), self)"
  using assms by (cases "metric_value self tk") (simp add: run_def)

lemma run_low:
  assumes "last_scaling self + real_of_int (backoff self) < t_run tk"
      and "snd (metric_value self tk) = Inr (Some v)"
      and "v < low_value self"
  shows "run self tk =
     (let ev = fst (metric_value self tk) @ [Log (Checking (Some v)),
                 ReadScale (deployment_name self) (namespace_name self)]
      in case scale_read tk of
           Inl e \<Rightarrow> (ev, Inl e, self)
         | Inr replicas \<Rightarrow>
             if min_replicas self < replicas then
               (ev @ [Log (Scaling (replicas - 1)),
                      ReplaceScale (deployment_name self) (namespace_name self) (replicas - 1)],
                case replace_result tk of Some e \<Rightarrow> Inl e | None \<Rightarrow> Inr (),
                case replace_result tk of Some e \<Rightarrow> self
                   | None \<Rightarrow> self\<lparr>last_scaling := t_scaled tk\<rparr>)
             else (ev @ [Log (ReachedMin (min_replicas self))], Inr (), self))"
  using assms
  by (cases "metric_value self tk")
     (simp add: run_def current_replicas_def scale_def Let_def split: sum.splits option.splits)

lemma run_high:
  assumes "last_scaling self + real_of_int (backoff self) < t_run tk"
      and "snd (metric_value self tk) = Inr (Some v)"
      and "\<not> v < low_value self" and "high_value self < v"
  shows "run self tk =
     (let ev = fst (metric_value self tk) @ [Log (Checking (Some v)),
                 ReadScale (deployment_name self) (namespace_name self)]
      in case scale_read tk of
           Inl e \<Rightarrow> (ev, Inl e, self)
         | Inr replicas \<Rightarrow>
             if replicas < max_replicas self then
               (ev @ [Log (Scaling (replicas + 1)),
                      ReplaceScale (deployment_name self) (namespace_name self) (replicas + 1)],
                case replace_result tk of Some e \<Rightarrow> Inl e | None \<Rightarrow> Inr (),
                case replace_result tk of Some e \<Rightarrow> self
                   | None \<Rightarrow> self\<lparr>last_scaling := t_scaled tk\<rparr>)
             else (ev @ [Log (ReachedMax (max_replicas self))], Inr (), self))"
  using assms
  by (cases "metric_value self tk")
     (simp add: run_def current_replicas_def scale_def Let_def split: sum.splits option.splits)

lemma run_fetch_raises:
  assumes "last_scaling self + real_of_int (backoff self) < t_run tk"
      and "snd (metric_value self tk) = Inl e"
  shows "run self tk = (fst (metric_value self tk), Inl e, self)"
  using assms by (cases "metric_value self tk") (simp add: run_def)

lemma run_shape:
  obtains
    (backoff) "t_run tk \<le> last_scaling self + real_of_int (backoff self)"
  | (raised) e where "last_scaling self + real_of_int (backoff self) < t_run tk"
      "snd (metric_value self tk) = Inl e"
  | (absent) "last_scaling self + real_of_int (backoff self) < t_run tk"
      "snd (metric_value self tk) = Inr None"
  | (low) v where "last_scaling self + real_of_int (backoff self) < t_run tk"
      "snd (metric_value self tk) = Inr (Some v)" "v < low_value self"
  | (high) v where "last_scaling self + real_of_int (backoff self) < t_run tk"
      "snd (metric_value self tk) = Inr (Some v)" "\<not> v < low_value self" "high_value self < v"
  | (within) v where "last_scaling self + real_of_int (backoff self) < t_run tk"
      "snd (metric_value self tk) = Inr (Some v)" "low_value self \<le> v" "v \<le> high_value self"
proof (cases "t_run tk \<le> last_scaling self + real_of_int (backoff self)")
  case True
  then show ?thesis by (rule backoff)
next
  case False
  then have go: "last_scaling self + real_of_int (backoff self) < t_run tk" by simp
  show ?thesis
  proof (cases "snd (metric_value self tk)")
    case (Inl e)
    with go show ?thesis by (rule raised)
  next
    case (Inr cv)
    show ?thesis
    proof (cases cv)
      case None
      with Inr go show ?thesis using absent by simp
    next
      case (Some v)
      with Inr have mv: "snd (metric_value self tk) = Inr (Some v)" by simp
      consider "v < low_value self" | "\<not> v < low_value self" "high_value self < v"
        | "low_value self \<le> v" "v \<le> high_value self"
        by linarith
      then show ?thesis
      proof cases
        case 1
        with go mv show ?thesis by (rule low)
      next
        case 2
        with go mv show ?thesis using high by blast
      next
        case 3
        with go mv show ?thesis using within by blast
      qed
    qed
  qed
qed

lemma run_state_cases:
  "state_of (run self tk) = self \<or>
   (state_of (run self tk) = self\<lparr>last_scaling := t_scaled tk\<rparr> \<and>
    last_scaling self + real_of_int (backoff self) < t_run tk \<and>
    writes (trace_of (run self tk)) \<noteq> [] \<and>
    replace_result tk = None \<and> outcome_of (run self tk) = Inr ())"
proof (cases rule: run_shape [where self = self and tk = tk])
  case backoff
  then show ?thesis by (simp add: run_in_backoff state_of_def)
next
  case (raised e)
  then show ?thesis by (simp add: run_fetch_raises state_of_def)
next
  case absent
  then show ?thesis by (simp add: run_no_value state_of_def)
next
  case (low v)
  then show ?thesis
    by (simp add: run_low state_of_def trace_of_def outcome_of_def Let_def
          split: sum.splits option.splits)
next
  case (high v)
  then show ?thesis
    by (simp add: run_high state_of_def trace_of_def outcome_of_def Let_def
          split: sum.splits option.splits)
next
  case (within v)
  then show ?thesis by (simp add: run_within state_of_def)
qed

lemma run_scaled_state_imp:
  "writes (trace_of (run self tk)) \<noteq> [] \<and> outcome_of (run self tk) = Inr () \<longrightarrow>
   state_of (run self tk) = self\<lparr>last_scaling := t_scaled tk\<rparr>"
proof (cases rule: run_shape [where self = self and tk = tk])
  case backoff
  then show ?thesis by (simp add: run_in_backoff trace_of_def)
next
  case (raised e)
  then show ?thesis by (simp add: run_fetch_raises outcome_of_def)
next
  case absent
  then show ?thesis by (simp add: run_no_value trace_of_def metric_value_trace)
next
  case (low v)
  then show ?thesis
    by (simp add: run_low state_of_def trace_of_def outcome_of_def Let_def metric_value_trace
          split: sum.split option.split)
next
  case (high v)
  then show ?thesis
    by (simp add: run_high state_of_def trace_of_def outcome_of_def Let_def metric_value_trace
          split: sum.split option.split)
next
  case (within v)
  then show ?thesis by (simp add: run_within trace_of_def metric_value_trace)
qed

lemma run_scaled_state:
  "writes (trace_of (run self tk)) \<noteq> [] \<Longrightarrow> outcome_of (run self tk) = Inr () \<Longrightarrow>
   state_of (run self tk) = self\<lparr>last_scaling := t_scaled tk\<rparr>"
  using run_scaled_state_imp [of self tk] by blast

lemma run_fetches:
  assumes "last_scaling self + real_of_int (backoff self) < t_run tk"
  shows "fetches (trace_of (run self tk)) =
          [GetMetricData (metric_id (metric self)) (group_id (server_group self))
             (- avg_interval self - 60) 0]"
proof (cases rule: run_shape [where self = self and tk = tk])
  case backoff
  with assms show ?thesis by simp
next
  case (raised e)
  then show ?thesis by (simp add: run_fetch_raises trace_of_def metric_value_trace)
next
  case absent
  then show ?thesis by (simp add: run_no_value trace_of_def metric_value_trace)
next
  case (low v)
  then show ?thesis
    by (simp add: run_low trace_of_def Let_def metric_value_trace split: sum.splits)
next
  case (high v)
  then show ?thesis
    by (simp add: run_high trace_of_def Let_def metric_value_trace split: sum.splits)
next
  case (within v)
  then show ?thesis by (simp add: run_within trace_of_def metric_value_trace)
qed

lemma run_hold:
  assumes "snd (metric_value self tk) = Inr (Some v)"
      and "low_value self \<le> v" and "v \<le> high_value self"
  shows "reads (trace_of (run self tk)) = [] \<and> writes (trace_of (run self tk)) = []
         \<and> outcome_of (run self tk) = Inr () \<and> state_of (run self tk) = self"
proof (cases "t_run tk \<le> last_scaling self + real_of_int (backoff self)")
  case True
  then show ?thesis
    by (simp add: run_in_backoff trace_of_def outcome_of_def state_of_def)
next
  case False
  with assms show ?thesis
    by (simp add: run_within trace_of_def outcome_of_def state_of_def metric_value_trace)
qed

lemma example_value:
  "snd (metric_value self (example_tick x y n)) = Inr (Some ((x + y) / 2))"
  by (simp add: metric_value_result example_tick_def)

lemma example_go:
  "last_scaling example_scaler + real_of_int (backoff example_scaler) < t_run (example_tick x y n)"
  by (simp add: example_scaler_def example_tick_def)

section \<open>The averaged value\<close>

text \<open>
  Claim C9. \<^verbatim>\<open>metric_value\<close> is total and never divides by zero: whatever list of windows
  the client returns, the method returns a value and raises nothing; the mean
  \<^verbatim>\<open>sum(values) / len(values)\<close> is computed only for a single window with at least one
  sample, and every other shape (no window, several windows, an empty window) gives the
  absent value before the division. The only exception that can leave the method is one
  raised by the client itself.
\<close>

theorem metric_value_total:
  "(\<forall>md. metric_data tk = Inr md \<longrightarrow>
      snd (metric_value self tk) =
        Inr (if length md = 1 \<and> 0 < length (window_values (hd md))
             then Some (sum_list (map snd (window_values (hd md)))
                          / real (length (window_values (hd md))))
             else None))
   \<and> (\<forall>e. snd (metric_value self tk) = Inl e \<longrightarrow> metric_data tk = Inl e)"
  by (simp add: metric_value_result split: sum.splits)

theorem metric_value_total_witness:
  "snd (metric_value example_scaler (example_tick 4 6 2)) = Inr (Some 5)
   \<and> snd (metric_value example_scaler ((example_tick 4 6 2)\<lparr>metric_data := Inr []\<rparr>)) = Inr None"
proof -
  have a: "metric_data (example_tick 4 6 2) = Inr [\<lparr>window_values = [(940, 4), (1000, 6)]\<rparr>]"
    by (simp add: example_tick_def)
  have b: "metric_data ((example_tick 4 6 2)\<lparr>metric_data := Inr []\<rparr>) = Inr []"
    by simp
  from a metric_value_total [of "example_tick 4 6 2" example_scaler]
  have 1: "snd (metric_value example_scaler (example_tick 4 6 2)) = Inr (Some 5)"
    by simp
  from b metric_value_total [of "(example_tick 4 6 2)\<lparr>metric_data := Inr []\<rparr>" example_scaler]
  have 2: "snd (metric_value example_scaler ((example_tick 4 6 2)\<lparr>metric_data := Inr []\<rparr>)) = Inr None"
    by simp
  from 1 2 show ?thesis by simp
qed

section \<open>Scaling down and up\<close>

text \<open>
  The scenario of the specification: an average of 5 under the bound 10 with 2 replicas
  is answered by a write of 1 replica, and the time of the write is remembered.
\<close>

lemma example_scale_down:
  "run example_scaler (example_tick 4 6 2) =
     ([GetMetricData 7 3 (- 360) 0, Log (Checking (Some 5)), ReadScale ''web'' ''default'',
       Log (Scaling 1), ReplaceScale ''web'' ''default'' 1],
      Inr (), example_scaler\<lparr>last_scaling := 1001\<rparr>)"
proof -
  have "run example_scaler (example_tick 4 6 2) =
     (fst (metric_value example_scaler (example_tick 4 6 2)) @
        [Log (Checking (Some 5)), ReadScale ''web'' ''default'',
         Log (Scaling 1), ReplaceScale ''web'' ''default'' 1],
      Inr (), example_scaler\<lparr>last_scaling := 1001\<rparr>)"
    using run_low [OF example_go, of 4 6 2 5]
    by (simp add: example_value) (simp add: example_scaler_def example_tick_def)
  then show ?thesis
    by (simp add: metric_value_trace) (simp add: example_scaler_def)
qed

text \<open>
  Claim C3. When the evaluation is not in backoff, the averaged value is under
  \<open>low_value\<close> and the orchestrator reports \<open>replicas\<close> replicas: with
  \<open>replicas > min_replicas\<close> exactly one write is made, of \<open>replicas - 1\<close>, which is not
  below \<open>min_replicas\<close> (and when the write returns, its time becomes \<open>last_scaling\<close>);
  with \<open>replicas \<le> min_replicas\<close> no write is made, the floor is logged and the object is
  unchanged.
\<close>

theorem scale_down_by_one:
  assumes "last_scaling self + real_of_int (backoff self) < t_run tk"
      and "snd (metric_value self tk) = Inr (Some v)"
      and "v < low_value self"
      and "scale_read tk = Inr replicas"
  shows "(min_replicas self < replicas \<longrightarrow>
            writes (trace_of (run self tk)) = [replicas - 1]
            \<and> min_replicas self \<le> replicas - 1
            \<and> (replace_result tk = None \<longrightarrow>
                 outcome_of (run self tk) = Inr ()
                 \<and> state_of (run self tk) = self\<lparr>last_scaling := t_scaled tk\<rparr>))
       \<and> (replicas \<le> min_replicas self \<longrightarrow>
            writes (trace_of (run self tk)) = []
            \<and> logged (trace_of (run self tk)) = [Checking (Some v), ReachedMin (min_replicas self)]
            \<and> outcome_of (run self tk) = Inr ()
            \<and> state_of (run self tk) = self)"
  using assms
  by (simp add: run_low trace_of_def outcome_of_def state_of_def Let_def metric_value_trace)

theorem scale_down_by_one_witness:
  "writes (trace_of (run example_scaler (example_tick 4 6 2))) = [1]
   \<and> state_of (run example_scaler (example_tick 4 6 2)) = example_scaler\<lparr>last_scaling := 1001\<rparr>
   \<and> writes (trace_of (run example_scaler (example_tick 4 6 1))) = []
   \<and> state_of (run example_scaler (example_tick 4 6 1)) = example_scaler"
proof -
  have v: "snd (metric_value example_scaler (example_tick 4 6 n)) = Inr (Some 5)" for n
    by (simp add: example_value)
  have lo: "5 < low_value example_scaler"
    by (simp add: example_scaler_def)
  have r: "scale_read (example_tick 4 6 n) = Inr n" for n
    by (simp add: example_tick_def)
  have m: "min_replicas example_scaler = 1"
    by (simp add: example_scaler_def)
  have w: "replace_result (example_tick 4 6 2) = None" "t_scaled (example_tick 4 6 2) = 1001"
    by (simp_all add: example_tick_def)
  from scale_down_by_one [OF example_go v lo r, of 2] m w
  have 1: "writes (trace_of (run example_scaler (example_tick 4 6 2))) = [1]
      \<and> state_of (run example_scaler (example_tick 4 6 2)) = example_scaler\<lparr>last_scaling := 1001\<rparr>"
    by simp
  from scale_down_by_one [OF example_go v lo r, of 1] m
  have 2: "writes (trace_of (run example_scaler (example_tick 4 6 1))) = []
      \<and> state_of (run example_scaler (example_tick 4 6 1)) = example_scaler"
    by simp
  from 1 2 show ?thesis by simp
qed

text \<open>
  A target whose bounds are the wrong way round, \<open>low_value\<close> 50 and \<open>high_value\<close> 10: the
  constructor accepts it, and \<^verbatim>\<open>run\<close> tests \<open>low_value\<close> first.
\<close>

lemma inverted_go:
  "last_scaling (example_scaler\<lparr>low_value := 50, high_value := 10\<rparr>)
     + real_of_int (backoff (example_scaler\<lparr>low_value := 50, high_value := 10\<rparr>))
   < t_run (example_tick x y n)"
  by (simp add: example_scaler_def example_tick_def)

lemma inverted_writes:
  "writes (trace_of (run (example_scaler\<lparr>low_value := 50, high_value := 10\<rparr>)
                         (example_tick 20 40 2))) = [1]"
  "writes (trace_of (run (example_scaler\<lparr>low_value := 50, high_value := 10\<rparr>)
                         (example_tick 50 50 2))) = [3]"
  "writes (trace_of (run (example_scaler\<lparr>low_value := 50, high_value := 10\<rparr>)
                         (example_tick 10 10 2))) = [1]"
proof -
  let ?s = "example_scaler\<lparr>low_value := 50, high_value := 10\<rparr>"
  have r: "scale_read (example_tick x y 2) = Inr 2" for x y
    by (simp add: example_tick_def)
  have m: "min_replicas ?s = 1" "max_replicas ?s = 5" "low_value ?s = 50" "high_value ?s = 10"
    by (simp_all add: example_scaler_def)
  have v1: "snd (metric_value ?s (example_tick 20 40 2)) = Inr (Some 30)"
    and v2: "snd (metric_value ?s (example_tick 50 50 2)) = Inr (Some 50)"
    and v3: "snd (metric_value ?s (example_tick 10 10 2)) = Inr (Some 10)"
    by (simp_all add: example_value)
  show "writes (trace_of (run ?s (example_tick 20 40 2))) = [1]"
    using run_low [OF inverted_go v1] r m
    by (simp add: trace_of_def Let_def metric_value_trace)
  show "writes (trace_of (run ?s (example_tick 50 50 2))) = [3]"
    using run_high [OF inverted_go v2] r m
    by (simp add: trace_of_def Let_def metric_value_trace)
  show "writes (trace_of (run ?s (example_tick 10 10 2))) = [1]"
    using run_low [OF inverted_go v3] r m
    by (simp add: trace_of_def Let_def metric_value_trace)
qed

text \<open>
  Claim C4, as the program has it. When the evaluation is not in backoff, the averaged value
  is over \<open>high_value\<close> and not under \<open>low_value\<close>, and the orchestrator reports \<open>replicas\<close>
  replicas: with \<open>replicas < max_replicas\<close> exactly one write is made, of \<open>replicas + 1\<close>,
  which is not above \<open>max_replicas\<close> (and when the write returns, its time becomes
  \<open>last_scaling\<close>); with \<open>replicas \<ge> max_replicas\<close> no write is made, the ceiling is logged
  and the object is unchanged. A value over \<open>high_value\<close> is not under \<open>low_value\<close> whenever
  \<open>low_value \<le> high_value\<close>.
\<close>

theorem scale_up_by_one:
  assumes "last_scaling self + real_of_int (backoff self) < t_run tk"
      and "snd (metric_value self tk) = Inr (Some v)"
      and "high_value self < v" and "\<not> v < low_value self"
      and "scale_read tk = Inr replicas"
  shows "(replicas < max_replicas self \<longrightarrow>
            writes (trace_of (run self tk)) = [replicas + 1]
            \<and> replicas + 1 \<le> max_replicas self
            \<and> (replace_result tk = None \<longrightarrow>
                 outcome_of (run self tk) = Inr ()
                 \<and> state_of (run self tk) = self\<lparr>last_scaling := t_scaled tk\<rparr>))
       \<and> (max_replicas self \<le> replicas \<longrightarrow>
            writes (trace_of (run self tk)) = []
            \<and> logged (trace_of (run self tk)) = [Checking (Some v), ReachedMax (max_replicas self)]
            \<and> outcome_of (run self tk) = Inr ()
            \<and> state_of (run self tk) = self)"
  using assms
  by (simp add: run_high trace_of_def outcome_of_def state_of_def Let_def metric_value_trace)

theorem scale_up_by_one_witness:
  "writes (trace_of (run example_scaler (example_tick 55 65 2))) = [3]
   \<and> state_of (run example_scaler (example_tick 55 65 2)) = example_scaler\<lparr>last_scaling := 1001\<rparr>
   \<and> writes (trace_of (run example_scaler (example_tick 55 65 5))) = []
   \<and> state_of (run example_scaler (example_tick 55 65 5)) = example_scaler"
proof -
  have v: "snd (metric_value example_scaler (example_tick 55 65 n)) = Inr (Some 60)" for n
    by (simp add: example_value)
  have hi: "high_value example_scaler < 60" and lo: "\<not> 60 < low_value example_scaler"
    by (simp_all add: example_scaler_def)
  have r: "scale_read (example_tick 55 65 n) = Inr n" for n
    by (simp add: example_tick_def)
  have m: "max_replicas example_scaler = 5"
    by (simp add: example_scaler_def)
  have w: "replace_result (example_tick 55 65 2) = None" "t_scaled (example_tick 55 65 2) = 1001"
    by (simp_all add: example_tick_def)
  from scale_up_by_one [OF example_go v hi lo r, of 2] m w
  have 1: "writes (trace_of (run example_scaler (example_tick 55 65 2))) = [3]
      \<and> state_of (run example_scaler (example_tick 55 65 2)) = example_scaler\<lparr>last_scaling := 1001\<rparr>"
    by simp
  from scale_up_by_one [OF example_go v hi lo r, of 5] m
  have 2: "writes (trace_of (run example_scaler (example_tick 55 65 5))) = []
      \<and> state_of (run example_scaler (example_tick 55 65 5)) = example_scaler"
    by simp
  from 1 2 show ?thesis by simp
qed

text \<open>
  Claim C4 as stated has every value over \<open>high_value\<close> scale up. With \<open>low_value\<close> 50,
  \<open>high_value\<close> 10, an average of 30 and 2 of at most 5 replicas, the value is over
  \<open>high_value\<close>, but the test against \<open>low_value\<close> comes first and the write is of 1 replica.
\<close>

theorem scale_up_inverted_bounds_counterexample:
  "last_scaling (example_scaler\<lparr>low_value := 50, high_value := 10\<rparr>)
     + real_of_int (backoff (example_scaler\<lparr>low_value := 50, high_value := 10\<rparr>))
     < t_run (example_tick 20 40 2)
   \<and> snd (metric_value (example_scaler\<lparr>low_value := 50, high_value := 10\<rparr>)
            (example_tick 20 40 2)) = Inr (Some 30)
   \<and> high_value (example_scaler\<lparr>low_value := 50, high_value := 10\<rparr>) < 30
   \<and> scale_read (example_tick 20 40 2) = Inr 2
   \<and> 2 < max_replicas (example_scaler\<lparr>low_value := 50, high_value := 10\<rparr>)
   \<and> writes (trace_of (run (example_scaler\<lparr>low_value := 50, high_value := 10\<rparr>)
                           (example_tick 20 40 2))) = [1]"
  using inverted_go [of 20 40 2] inverted_writes(1)
  by (simp add: example_value) (simp add: example_scaler_def example_tick_def)

section \<open>Backoff\<close>

text \<open>
  Claim C1, as the program has it. A call of \<^verbatim>\<open>run\<close> whose reading of the clock is not after
  \<open>last_scaling + backoff\<close> (before it, or equal to it) logs the backoff and does nothing
  else: no fetch, no read, no write, the object unchanged. A call whose reading is after
  \<open>last_scaling + backoff\<close> fetches the metric, once, over the window from
  \<open>- avg_interval - 60\<close> to 0. After a call that wrote and returned, a second call whose
  reading is before the time of that write plus the backoff (or before the reading of the
  first call plus the backoff, when the clock did not go back during the first call) is
  in backoff. The guard of \<^verbatim>\<open>run\<close> is the strict comparison
  \<^verbatim>\<open>time.time() > self.last_scaling + self.backoff\<close>.
\<close>

theorem backoff_guard:
  "(t_run tk \<le> last_scaling self + real_of_int (backoff self) \<longrightarrow>
      run self tk = ([Log InBackoff], Inr (), self))
   \<and> (last_scaling self + real_of_int (backoff self) < t_run tk \<longrightarrow>
        fetches (trace_of (run self tk)) =
          [GetMetricData (metric_id (metric self)) (group_id (server_group self))
             (- avg_interval self - 60) 0])
   \<and> (writes (trace_of (run self tk)) \<noteq> [] \<and> outcome_of (run self tk) = Inr ()
        \<and> (t_run tk2 < t_scaled tk + real_of_int (backoff self)
            \<or> (t_run tk \<le> t_scaled tk \<and> t_run tk2 < t_run tk + real_of_int (backoff self)))
      \<longrightarrow> run (state_of (run self tk)) tk2 = ([Log InBackoff], Inr (), state_of (run self tk)))"
proof (intro conjI impI)
  assume "t_run tk \<le> last_scaling self + real_of_int (backoff self)"
  then show "run self tk = ([Log InBackoff], Inr (), self)"
    by (rule run_in_backoff)
next
  assume "last_scaling self + real_of_int (backoff self) < t_run tk"
  then show "fetches (trace_of (run self tk)) =
          [GetMetricData (metric_id (metric self)) (group_id (server_group self))
             (- avg_interval self - 60) 0]"
    by (rule run_fetches)
next
  assume h: "writes (trace_of (run self tk)) \<noteq> [] \<and> outcome_of (run self tk) = Inr ()
        \<and> (t_run tk2 < t_scaled tk + real_of_int (backoff self)
            \<or> (t_run tk \<le> t_scaled tk \<and> t_run tk2 < t_run tk + real_of_int (backoff self)))"
  then have st: "state_of (run self tk) = self\<lparr>last_scaling := t_scaled tk\<rparr>"
    by (simp add: run_scaled_state)
  from h have "t_run tk2 \<le> t_scaled tk + real_of_int (backoff self)"
    by linarith
  then show "run (state_of (run self tk)) tk2 = ([Log InBackoff], Inr (), state_of (run self tk))"
    unfolding st by (simp add: run_in_backoff)
qed

theorem backoff_guard_witness:
  "run (example_scaler\<lparr>last_scaling := 1001\<rparr>) ((example_tick 4 6 2)\<lparr>t_run := 1500\<rparr>)
     = ([Log InBackoff], Inr (), example_scaler\<lparr>last_scaling := 1001\<rparr>)
   \<and> fetches (trace_of (run example_scaler (example_tick 4 6 2))) = [GetMetricData 7 3 (- 360) 0]
   \<and> run (state_of (run example_scaler (example_tick 4 6 2))) ((example_tick 4 6 2)\<lparr>t_run := 1599\<rparr>)
       = ([Log InBackoff], Inr (), example_scaler\<lparr>last_scaling := 1001\<rparr>)"
proof -
  have a: "t_run ((example_tick 4 6 2)\<lparr>t_run := 1500\<rparr>)
            \<le> last_scaling (example_scaler\<lparr>last_scaling := 1001\<rparr>)
              + real_of_int (backoff (example_scaler\<lparr>last_scaling := 1001\<rparr>))"
    by (simp add: example_scaler_def)
  have c: "writes (trace_of (run example_scaler (example_tick 4 6 2))) \<noteq> []
           \<and> outcome_of (run example_scaler (example_tick 4 6 2)) = Inr ()
           \<and> (t_run ((example_tick 4 6 2)\<lparr>t_run := 1599\<rparr>)
                 < t_scaled (example_tick 4 6 2) + real_of_int (backoff example_scaler)
              \<or> (t_run (example_tick 4 6 2) \<le> t_scaled (example_tick 4 6 2)
                 \<and> t_run ((example_tick 4 6 2)\<lparr>t_run := 1599\<rparr>)
                     < t_run (example_tick 4 6 2) + real_of_int (backoff example_scaler)))"
    by (simp add: example_scale_down trace_of_def outcome_of_def)
       (simp add: example_scaler_def example_tick_def)
  have s: "state_of (run example_scaler (example_tick 4 6 2)) = example_scaler\<lparr>last_scaling := 1001\<rparr>"
    by (simp add: example_scale_down state_of_def)
  from a backoff_guard [of "(example_tick 4 6 2)\<lparr>t_run := 1500\<rparr>"
                          "example_scaler\<lparr>last_scaling := 1001\<rparr>"]
  have 1: "run (example_scaler\<lparr>last_scaling := 1001\<rparr>) ((example_tick 4 6 2)\<lparr>t_run := 1500\<rparr>)
     = ([Log InBackoff], Inr (), example_scaler\<lparr>last_scaling := 1001\<rparr>)"
    by blast
  from example_go [of 4 6 2] c
    backoff_guard [of "example_tick 4 6 2" example_scaler "(example_tick 4 6 2)\<lparr>t_run := 1599\<rparr>"]
  have 2: "fetches (trace_of (run example_scaler (example_tick 4 6 2)))
            = [GetMetricData (metric_id (metric example_scaler))
                 (group_id (server_group example_scaler)) (- avg_interval example_scaler - 60) 0]"
    and 3: "run (state_of (run example_scaler (example_tick 4 6 2))) ((example_tick 4 6 2)\<lparr>t_run := 1599\<rparr>)
       = ([Log InBackoff], Inr (), state_of (run example_scaler (example_tick 4 6 2)))"
    by blast+
  from 2 have 4: "fetches (trace_of (run example_scaler (example_tick 4 6 2))) = [GetMetricData 7 3 (- 360) 0]"
    by (simp add: example_scaler_def)
  from 1 3 4 s show ?thesis by simp
qed

text \<open>
  Claim C1 as stated has the evaluation fetch the metric whenever the reading is at least
  \<open>last_scaling + backoff\<close>. A target never scaled with a backoff of 600 seconds, called
  at the reading 600, makes no fetch.
\<close>

theorem backoff_boundary_counterexample:
  "last_scaling example_scaler + real_of_int (backoff example_scaler)
     \<le> t_run ((example_tick 4 6 2)\<lparr>t_run := 600\<rparr>)
   \<and> fetches (trace_of (run example_scaler ((example_tick 4 6 2)\<lparr>t_run := 600\<rparr>))) = []"
proof -
  have "t_run ((example_tick 4 6 2)\<lparr>t_run := 600\<rparr>)
          \<le> last_scaling example_scaler + real_of_int (backoff example_scaler)"
    by (simp add: example_scaler_def)
  then have "run example_scaler ((example_tick 4 6 2)\<lparr>t_run := 600\<rparr>)
               = ([Log InBackoff], Inr (), example_scaler)"
    by (rule run_in_backoff)
  then show ?thesis
    by (simp add: trace_of_def) (simp add: example_scaler_def)
qed

section \<open>Insufficient data\<close>

text \<open>
  Claim C2. When the client returns no window, more than one window, or a single window
  without samples, \<^verbatim>\<open>metric_value\<close> returns the absent value, and the evaluation neither
  reads nor writes the replica count, raises nothing and leaves the object, and so
  \<open>last_scaling\<close>, unchanged; outside backoff it logs the failure to retrieve the data.
\<close>

theorem insufficient_data:
  assumes "metric_data tk = Inr md"
      and "length md = 0 \<or> 1 < length md \<or> (length md = 1 \<and> window_values (hd md) = [])"
  shows "snd (metric_value self tk) = Inr None
       \<and> reads (trace_of (run self tk)) = []
       \<and> writes (trace_of (run self tk)) = []
       \<and> outcome_of (run self tk) = Inr ()
       \<and> state_of (run self tk) = self
       \<and> (last_scaling self + real_of_int (backoff self) < t_run tk \<longrightarrow>
            logged (trace_of (run self tk)) = [Checking None, FailedToRetrieve])"
proof -
  from assms have none: "snd (metric_value self tk) = Inr None"
    by (auto simp: metric_value_result)
  show ?thesis
  proof (cases "t_run tk \<le> last_scaling self + real_of_int (backoff self)")
    case True
    with none show ?thesis
      by (simp add: run_in_backoff trace_of_def outcome_of_def state_of_def)
  next
    case False
    with none show ?thesis
      by (simp add: run_no_value trace_of_def outcome_of_def state_of_def metric_value_trace)
  qed
qed

theorem insufficient_data_witness:
  "snd (metric_value example_scaler ((example_tick 4 6 2)\<lparr>metric_data := Inr []\<rparr>)) = Inr None
   \<and> reads (trace_of (run example_scaler ((example_tick 4 6 2)\<lparr>metric_data := Inr []\<rparr>))) = []
   \<and> writes (trace_of (run example_scaler ((example_tick 4 6 2)\<lparr>metric_data := Inr []\<rparr>))) = []
   \<and> state_of (run example_scaler ((example_tick 4 6 2)\<lparr>metric_data := Inr []\<rparr>)) = example_scaler
   \<and> logged (trace_of (run example_scaler ((example_tick 4 6 2)\<lparr>metric_data := Inr []\<rparr>)))
       = [Checking None, FailedToRetrieve]"
proof -
  have a: "metric_data ((example_tick 4 6 2)\<lparr>metric_data := Inr []\<rparr>) = Inr []"
    by simp
  have b: "length ([] :: window list) = 0 \<or> 1 < length ([] :: window list)
           \<or> (length ([] :: window list) = 1 \<and> window_values (hd []) = [])"
    by simp
  have c: "last_scaling example_scaler + real_of_int (backoff example_scaler)
             < t_run ((example_tick 4 6 2)\<lparr>metric_data := Inr []\<rparr>)"
    by (simp add: example_scaler_def example_tick_def)
  from insufficient_data [OF a b, of example_scaler] c show ?thesis
    by simp
qed

section \<open>Values within the bounds\<close>

text \<open>
  Claim C5. For bounds \<open>low_value < high_value\<close> and an averaged value strictly between
  them, the evaluation makes no read and no write of the replica count and leaves the
  object unchanged, whatever the orchestrator would report and whatever \<open>min_replicas\<close>
  and \<open>max_replicas\<close> are.
\<close>

theorem hold_within_bounds:
  assumes "low_value self < high_value self"
      and "snd (metric_value self tk) = Inr (Some v)"
      and "low_value self < v" and "v < high_value self"
  shows "reads (trace_of (run self tk)) = [] \<and> writes (trace_of (run self tk)) = []
         \<and> outcome_of (run self tk) = Inr () \<and> state_of (run self tk) = self"
  using assms by (simp add: run_hold)

theorem hold_within_bounds_witness:
  "reads (trace_of (run example_scaler (example_tick 20 40 2))) = []
   \<and> writes (trace_of (run example_scaler (example_tick 20 40 2))) = []
   \<and> outcome_of (run example_scaler (example_tick 20 40 2)) = Inr ()
   \<and> state_of (run example_scaler (example_tick 20 40 2)) = example_scaler"
proof -
  have b: "low_value example_scaler < high_value example_scaler"
    by (simp add: example_scaler_def)
  have v: "snd (metric_value example_scaler (example_tick 20 40 2)) = Inr (Some 30)"
    by (simp add: example_value)
  have lo: "low_value example_scaler < 30" and hi: "30 < high_value example_scaler"
    by (simp_all add: example_scaler_def)
  from hold_within_bounds [OF b v lo hi] show ?thesis .
qed

text \<open>
  Claim C10, as the program has it. For bounds \<open>low_value \<le> high_value\<close>, an averaged value
  equal to \<open>low_value\<close> or equal to \<open>high_value\<close> is within the bounds: both comparisons of
  \<^verbatim>\<open>run\<close> are strict and both are false, so there is no read and no write of the replica
  count and the object is unchanged.
\<close>

theorem hold_on_bounds:
  assumes "low_value self \<le> high_value self"
      and "snd (metric_value self tk) = Inr (Some v)"
      and "v = low_value self \<or> v = high_value self"
  shows "reads (trace_of (run self tk)) = [] \<and> writes (trace_of (run self tk)) = []
         \<and> outcome_of (run self tk) = Inr () \<and> state_of (run self tk) = self
         \<and> \<not> v < low_value self \<and> \<not> high_value self < v"
proof -
  from assms have "low_value self \<le> v" and "v \<le> high_value self"
    by auto
  with assms(2) show ?thesis
    by (simp add: run_hold)
qed

theorem hold_on_bounds_witness:
  "reads (trace_of (run example_scaler (example_tick 10 10 2))) = []
   \<and> writes (trace_of (run example_scaler (example_tick 10 10 2))) = []
   \<and> state_of (run example_scaler (example_tick 10 10 2)) = example_scaler
   \<and> reads (trace_of (run example_scaler (example_tick 50 50 2))) = []
   \<and> writes (trace_of (run example_scaler (example_tick 50 50 2))) = []
   \<and> state_of (run example_scaler (example_tick 50 50 2)) = example_scaler"
proof -
  have b: "low_value example_scaler \<le> high_value example_scaler"
    by (simp add: example_scaler_def)
  have v1: "snd (metric_value example_scaler (example_tick 10 10 2)) = Inr (Some 10)"
    and v2: "snd (metric_value example_scaler (example_tick 50 50 2)) = Inr (Some 50)"
    by (simp_all add: example_value)
  have e1: "10 = low_value example_scaler \<or> 10 = high_value example_scaler"
    and e2: "50 = low_value example_scaler \<or> 50 = high_value example_scaler"
    by (simp_all add: example_scaler_def)
  from hold_on_bounds [OF b v1 e1] hold_on_bounds [OF b v2 e2] show ?thesis
    by simp
qed

text \<open>
  Claim C10 as stated has no action for any value equal to a bound. With \<open>low_value\<close> 50 and
  \<open>high_value\<close> 10, an average equal to \<open>low_value\<close> is over \<open>high_value\<close> and 3 replicas are
  written for 2, and an average equal to \<open>high_value\<close> is under \<open>low_value\<close> and 1 replica is
  written.
\<close>

theorem hold_on_bounds_inverted_counterexample:
  "snd (metric_value (example_scaler\<lparr>low_value := 50, high_value := 10\<rparr>)
            (example_tick 50 50 2))
     = Inr (Some (low_value (example_scaler\<lparr>low_value := 50, high_value := 10\<rparr>)))
   \<and> writes (trace_of (run (example_scaler\<lparr>low_value := 50, high_value := 10\<rparr>)
                           (example_tick 50 50 2))) = [3]
   \<and> snd (metric_value (example_scaler\<lparr>low_value := 50, high_value := 10\<rparr>)
            (example_tick 10 10 2))
     = Inr (Some (high_value (example_scaler\<lparr>low_value := 50, high_value := 10\<rparr>)))
   \<and> writes (trace_of (run (example_scaler\<lparr>low_value := 50, high_value := 10\<rparr>)
                           (example_tick 10 10 2))) = [1]"
  using inverted_writes(2,3)
  by (simp add: example_value)

section \<open>The time of the last scaling\<close>

text \<open>
  A call of \<^verbatim>\<open>run\<close> leaves \<open>last_scaling\<close> as it is or sets it to the reading of the clock
  made in \<^verbatim>\<open>scale\<close>.
\<close>

lemma run_last_scaling:
  "last_scaling (state_of (run self tk)) = last_scaling self
   \<or> last_scaling (state_of (run self tk)) = t_scaled tk"
  using run_state_cases [of self tk] by auto

lemma sorted_run_all:
  "sorted (last_scaling self # readings tks) \<Longrightarrow>
   sorted (map last_scaling (self # run_all self tks))"
proof (induction tks arbitrary: self)
  case Nil
  then show ?case by simp
next
  case (Cons tk tks)
  let ?s = "state_of (run self tk)"
  from Cons.prems have le: "last_scaling self \<le> t_scaled tk"
    and rest: "sorted (t_scaled tk # readings tks)"
    and all: "\<forall>x \<in> set (readings tks). last_scaling self \<le> x"
    by auto
  from run_last_scaling [of self tk] le have step: "last_scaling self \<le> last_scaling ?s"
    by auto
  from run_last_scaling [of self tk] rest all have "sorted (last_scaling ?s # readings tks)"
    by auto
  then have ih: "sorted (map last_scaling (?s # run_all ?s tks))"
    by (rule Cons.IH)
  then have "\<forall>x \<in> set (map last_scaling (?s # run_all ?s tks)). last_scaling ?s \<le> x"
    by auto
  with step have "\<forall>x \<in> set (map last_scaling (?s # run_all ?s tks)). last_scaling self \<le> x"
    by auto
  with ih show ?case by simp
qed

text \<open>
  Claim C6. Over any sequence of calls of \<^verbatim>\<open>run\<close> on one object during which the clock
  does not go back (the readings made in \<^verbatim>\<open>run\<close> and in \<^verbatim>\<open>scale\<close>, in program order, are
  non-decreasing and start at or after the object's \<open>last_scaling\<close>), \<open>last_scaling\<close> is
  non-decreasing. A call changes the object only by setting \<open>last_scaling\<close> to the reading
  made in \<^verbatim>\<open>scale\<close>, and only when the replace call was made and returned. When the read
  or the write of the replica count raises, or anything else raises out of \<^verbatim>\<open>run\<close>, the
  object is unchanged, so the next call starts from the same \<open>last_scaling\<close> and is not
  held back by a backoff.
\<close>

theorem last_scaling_monotone:
  "(sorted (last_scaling self # readings tks) \<longrightarrow>
      sorted (map last_scaling (self # run_all self tks)))
   \<and> (state_of (run self tk) = self
       \<or> (state_of (run self tk) = self\<lparr>last_scaling := t_scaled tk\<rparr>
           \<and> writes (trace_of (run self tk)) \<noteq> []
           \<and> replace_result tk = None \<and> outcome_of (run self tk) = Inr ()))
   \<and> ((\<exists>e. scale_read tk = Inl e) \<or> (\<exists>e. replace_result tk = Some e)
         \<or> (\<exists>e. outcome_of (run self tk) = Inl e)
       \<longrightarrow> state_of (run self tk) = self \<and> run_all self [tk, tk2] = [self, state_of (run self tk2)])"
proof (intro conjI impI)
  assume "sorted (last_scaling self # readings tks)"
  then show "sorted (map last_scaling (self # run_all self tks))"
    by (rule sorted_run_all)
next
  show "state_of (run self tk) = self
       \<or> (state_of (run self tk) = self\<lparr>last_scaling := t_scaled tk\<rparr>
           \<and> writes (trace_of (run self tk)) \<noteq> []
           \<and> replace_result tk = None \<and> outcome_of (run self tk) = Inr ())"
    using run_state_cases [of self tk] by blast
next
  assume "(\<exists>e. scale_read tk = Inl e) \<or> (\<exists>e. replace_result tk = Some e)
         \<or> (\<exists>e. outcome_of (run self tk) = Inl e)"
  then consider e where "scale_read tk = Inl e" | e where "replace_result tk = Some e"
    | e where "outcome_of (run self tk) = Inl e"
    by blast
  then show "state_of (run self tk) = self"
  proof cases
    case 1
    show ?thesis
    proof (cases rule: run_shape [where self = self and tk = tk])
      case backoff
      then show ?thesis by (simp add: run_in_backoff state_of_def)
    next
      case (raised e)
      then show ?thesis by (simp add: run_fetch_raises state_of_def)
    next
      case absent
      then show ?thesis by (simp add: run_no_value state_of_def)
    next
      case (low v)
      with 1 show ?thesis by (simp add: run_low state_of_def)
    next
      case (high v)
      with 1 show ?thesis by (simp add: run_high state_of_def)
    next
      case (within v)
      then show ?thesis by (simp add: run_within state_of_def)
    qed
  next
    case 2
    with run_state_cases [of self tk] show ?thesis by auto
  next
    case 3
    with run_state_cases [of self tk] show ?thesis by auto
  qed
  then show "run_all self [tk, tk2] = [self, state_of (run self tk2)]"
    by simp
qed

theorem last_scaling_monotone_witness:
  "sorted (map last_scaling
       (example_scaler #
        run_all example_scaler
          [example_tick 4 6 2, (example_tick 4 6 1)\<lparr>t_run := 1700, t_scaled := 1702\<rparr>]))
   \<and> state_of (run example_scaler ((example_tick 4 6 3)\<lparr>replace_result := Some ApiException\<rparr>))
       = example_scaler"
proof -
  have a: "sorted (last_scaling example_scaler #
             readings [example_tick 4 6 2, (example_tick 4 6 1)\<lparr>t_run := 1700, t_scaled := 1702\<rparr>])"
    by (simp add: example_scaler_def example_tick_def)
  have b: "\<exists>e. replace_result ((example_tick 4 6 3)\<lparr>replace_result := Some ApiException\<rparr>) = Some e"
    by simp
  from a b
    last_scaling_monotone [of example_scaler
      "[example_tick 4 6 2, (example_tick 4 6 1)\<lparr>t_run := 1700, t_scaled := 1702\<rparr>]"
      "(example_tick 4 6 3)\<lparr>replace_result := Some ApiException\<rparr>"]
  show ?thesis by blast
qed

section \<open>The scheduler, step by step\<close>

text \<open>
  What one call of \<^verbatim>\<open>run_and_schedule\<close> does to each part of the state. The clock, the
  queue and the record of calls do not depend on what \<^verbatim>\<open>run\<close> returns or raises.
\<close>

lemma run_and_schedule_clock:
  "clock (run_and_schedule env i w a) = clock w + duration (answers env (length (timeline w)))"
  by (simp add: run_and_schedule_def enter_def Let_def)

lemma run_and_schedule_queue:
  "queue (run_and_schedule env i w a) =
     queue w @ [\<lparr>ev_time = clock w + duration (answers env (length (timeline w))) + real_of_int i,
                 ev_priority = 1, ev_seq = next_seq w, ev_target = a\<rparr>]"
  by (simp add: run_and_schedule_def enter_def Let_def)

lemma run_and_schedule_next_seq:
  "next_seq (run_and_schedule env i w a) = Suc (next_seq w)"
  by (simp add: run_and_schedule_def enter_def Let_def)

lemma run_and_schedule_heap:
  "heap (run_and_schedule env i w a) =
     (heap w)[a := state_of (run (heap w ! a) (answers env (length (timeline w))))]"
  by (simp add: run_and_schedule_def enter_def Let_def)

lemma run_and_schedule_journal:
  "journal (run_and_schedule env i w a) =
     journal w @
     (case outcome_of (run (heap w ! a) (answers env (length (timeline w)))) of
        Inl e \<Rightarrow> trace_of (run (heap w ! a) (answers env (length (timeline w))))
                   @ [Log (ExceptionWhileRunning e)]
      | Inr u \<Rightarrow> trace_of (run (heap w ! a) (answers env (length (timeline w)))))"
  by (simp add: run_and_schedule_def enter_def Let_def)

lemma run_and_schedule_timeline:
  "timeline (run_and_schedule env i w a) =
     (a, clock w, clock w + duration (answers env (length (timeline w)))) # timeline w"
  by (simp add: run_and_schedule_def enter_def Let_def)

lemmas run_and_schedule_fields =
  run_and_schedule_clock run_and_schedule_queue run_and_schedule_next_seq
  run_and_schedule_heap run_and_schedule_journal run_and_schedule_timeline

lemma earliest_None: "(earliest q = None) = (q = [])"
  by (cases q) (simp_all split: option.splits)

lemma earliest_in: "earliest q = Some e \<Longrightarrow> e \<in> set q"
  by (induction q arbitrary: e) (auto split: option.splits if_splits)

lemma previous_end_fresh:
  "list_all (\<lambda>r. fst r < a) rs \<Longrightarrow> previous_end a rs = None"
  by (induction rs) auto

lemma distinct_remove1_map:
  "distinct (map f xs) \<Longrightarrow> distinct (map f (remove1 x xs))"
  by (induction xs) (auto dest: notin_set_remove1 [rotated] simp: image_iff)

lemma remove1_target_gone:
  "distinct (map f xs) \<Longrightarrow> x \<in> set xs \<Longrightarrow> \<forall>y \<in> set (remove1 x xs). f y \<noteq> f x"
  by (induction xs) (auto simp: image_iff dest: notin_set_remove1 [rotated])

section \<open>The example process\<close>

text \<open>
  In the example environment the constructor returns the example target for the metric
  \<^verbatim>\<open>cpu\<close> and raises for a metric that the platform does not know.
\<close>

lemma example_init_ok:
  "Scaler_init (example_item ''cpu'') (example_env slow) = Inr example_scaler"
  by (simp add: Scaler_init_def example_item_def example_env_def and_then_def lookup_def
        get_metric_by_name_def get_server_group_def example_scaler_def)


lemma example_duration:
  "duration (answers (example_env slow) k) = slow k"
  by (simp add: example_env_def)

lemma example_set_config:
  "set_config (example_env slow) = None" "start_clock (example_env slow) = 0"
  by (simp_all add: example_env_def)

text \<open>
  Two targets, an interval of 60 seconds, and three passes of the scheduler's loop: the
  first calls take 0 and 10 seconds, the second call of the first target takes 100.
\<close>

lemma example_timeline:
  "timeline (fst (sched_run 3 (example_env example_slow) 60
      (start_scalers (example_env example_slow) 60 [example_item ''cpu'', example_item ''cpu'']
         \<lparr>clock = 0, queue = [], next_seq = 0, heap = [], journal = [], timeline = []\<rparr>)))
   = [(1, 160, 160), (0, 60, 160), (1, 0, 10), (0, 0, 0)]"
  by (simp add: eval_nat_numeral example_init_ok run_and_schedule_fields example_duration
        example_slow_def sched_step_def before_def)

section \<open>Failures and the queue\<close>

text \<open>
  A call of \<^verbatim>\<open>run\<close> that raises leaves its object unchanged; \<^verbatim>\<open>run_and_schedule\<close> logs the
  exception and enters the next event all the same. A pass of the scheduler's loop keeps
  every object armed, makes no object and never empties the queue.
\<close>

lemma all_armed_iff:
  "all_armed w =
     (ev_target ` set (queue w) = {..<length (heap w)}
      \<and> (\<forall>a<length (heap w). a \<in> fst ` set (timeline w)))"
  by (auto simp: all_armed_def list_all_iff lessThan_atLeast0)

lemma set_remove1_insert: "x \<in> set xs \<Longrightarrow> insert x (set (remove1 x xs)) = set xs"
  by (induction xs) auto



lemma sched_step_cases:
  assumes "sched_step env i w = Some w'"
  obtains (sleep) e where "earliest (queue w) = Some e" and "clock w < ev_time e"
      and "w' = w\<lparr>clock := clock w + (ev_time e - clock w)\<rparr>"
    | (call) e where "e \<in> set (queue w)" and "\<not> clock w < ev_time e"
      and "w' = run_and_schedule env i (w\<lparr>queue := remove1 e (queue w)\<rparr>) (ev_target e)"
proof -
  from assms obtain e where e: "earliest (queue w) = Some e"
    by (auto simp: sched_step_def split: option.splits)
  show ?thesis
  proof (cases "clock w < ev_time e")
    case True
    with assms e have "w' = w\<lparr>clock := clock w + (ev_time e - clock w)\<rparr>"
      by (simp add: sched_step_def)
    with e True show ?thesis by (rule sleep)
  next
    case False
    with assms e have "w' = run_and_schedule env i (w\<lparr>queue := remove1 e (queue w)\<rparr>) (ev_target e)"
      by (simp add: sched_step_def)
    with earliest_in [OF e] False show ?thesis by (rule call)
  qed
qed

lemma all_armed_step:
  assumes "all_armed w" and "sched_step env i w = Some w'"
  shows "all_armed w'" and "length (heap w') = length (heap w)"
    and "set (journal w) \<subseteq> set (journal w')" and "queue w' \<noteq> []"
proof -
  from assms(2) have "all_armed w' \<and> length (heap w') = length (heap w)
      \<and> set (journal w) \<subseteq> set (journal w') \<and> queue w' \<noteq> []"
  proof (cases rule: sched_step_cases)
    case (sleep e)
    with assms(1) show ?thesis
      by (auto simp: all_armed_iff)
  next
    case (call e)
    have "ev_target ` set (remove1 e (queue w)) \<union> {ev_target e}
            = ev_target ` insert e (set (remove1 e (queue w)))"
      by auto
    also have "\<dots> = ev_target ` set (queue w)"
      using call(1) by (simp add: set_remove1_insert)
    finally have q: "ev_target ` set (remove1 e (queue w)) \<union> {ev_target e}
            = ev_target ` set (queue w)" .
    from assms(1) q show ?thesis
      unfolding call(3)
      by (auto simp: all_armed_iff run_and_schedule_fields)
  qed
  then show "all_armed w'" and "length (heap w') = length (heap w)"
    and "set (journal w) \<subseteq> set (journal w')" and "queue w' \<noteq> []"
    by simp_all
qed

lemma sched_step_None: "(sched_step env i w = None) = (queue w = [])"
  by (auto simp: sched_step_def earliest_None split: option.splits)

lemma all_armed_sched_run:
  assumes "all_armed w"
  shows "all_armed (fst (sched_run n env i w))
       \<and> length (heap (fst (sched_run n env i w))) = length (heap w)
       \<and> set (journal w) \<subseteq> set (journal (fst (sched_run n env i w)))
       \<and> (queue w \<noteq> [] \<longrightarrow> \<not> snd (sched_run n env i w))
       \<and> (queue w = [] \<and> 0 < n \<longrightarrow> snd (sched_run n env i w) \<and> fst (sched_run n env i w) = w)"
  using assms
proof (induction n arbitrary: w)
  case 0
  then show ?case by simp
next
  case (Suc n)
  show ?case
  proof (cases "sched_step env i w")
    case None
    then have "queue w = []" by (simp add: sched_step_None)
    with None Suc.prems show ?thesis by simp
  next
    case (Some w')
    then have ne: "queue w \<noteq> []"
      using sched_step_None [of env i w] by auto
    note st = all_armed_step [OF Suc.prems Some]
    from Suc.IH [OF st(1)] st(2,3,4) Some ne show ?thesis
      by auto
  qed
qed

text \<open>
  The loop of \<^verbatim>\<open>run_scalers\<close> that creates the objects makes one object for every item for
  which the constructor returns, calls and arms it, and logs every item for which the
  constructor raises.
\<close>

lemma all_armed_start_scalers:
  assumes "all_armed w"
  shows "all_armed (start_scalers env i config w)
       \<and> length (heap (start_scalers env i config w))
           = length (heap w) + length (constructed env config)
       \<and> set (journal w) \<subseteq> set (journal (start_scalers env i config w))
       \<and> (\<forall>item \<in> set config. \<forall>e. Scaler_init item env = Inl e \<longrightarrow>
             Log (FailedToInitialise item e) \<in> set (journal (start_scalers env i config w)))"
  using assms
proof (induction config arbitrary: w)
  case Nil
  then show ?case by simp
next
  case (Cons item config)
  show ?case
  proof (cases "Scaler_init item env")
    case (Inl e)
    let ?w = "w\<lparr>journal := journal w @ [Log (FailedToInitialise item e)]\<rparr>"
    from Cons.prems have "all_armed ?w"
      by (simp add: all_armed_iff)
    from Cons.IH [OF this] Inl show ?thesis
      by auto
  next
    case (Inr s)
    let ?w = "w\<lparr>heap := heap w @ [s], journal := journal w @ [Log Starting]\<rparr>"
    let ?w' = "run_and_schedule env i ?w (length (heap w))"
    from Cons.prems have "all_armed ?w'"
      by (auto simp: all_armed_iff run_and_schedule_fields less_Suc_eq)
    from Cons.IH [OF this] Inr show ?thesis
      by (auto simp: run_and_schedule_fields)
  qed
qed

section \<open>One failing target\<close>




section \<open>The scheduling discipline is kept\<close>

text \<open>
  \<open>well_scheduled\<close> and \<open>settled\<close> are kept by a call of \<^verbatim>\<open>run_and_schedule\<close> for a target that
  has no event in the queue and is called on time, by taking an event from the queue, and
  so by every pass of the scheduler's loop and by the loop that creates the objects.
\<close>

lemma returned_by_later: "returned_by t rs \<Longrightarrow> t \<le> t' \<Longrightarrow> returned_by t' rs"
  by (cases rs) auto

lemma returned_at_by: "returned_at t rs \<Longrightarrow> returned_by t rs"
  by (cases rs) auto

lemma starts_at_returned:
  "returned_at t rs \<Longrightarrow> due \<le> t \<Longrightarrow> rs \<noteq> [] \<Longrightarrow> starts_at t due rs"
  by (cases rs) auto

lemma starts_at_due:
  "returned_by t rs \<Longrightarrow> starts_at t t rs"
  by (cases rs) auto

lemma well_scheduled_run_and_schedule:
  assumes "well_scheduled (real_of_int i) w"
      and "list_all (\<lambda>e. ev_target e \<noteq> a) (queue w)"
      and "case previous_end a (timeline w) of None \<Rightarrow> True
           | Some p \<Rightarrow> starts_at (clock w) (p + real_of_int i) (timeline w)"
      and "a < length (heap w)"
  shows "well_scheduled (real_of_int i) (run_and_schedule env i w a)"
    and "settled (run_and_schedule env i w a)"
proof -
  let ?w = "run_and_schedule env i w a"
  from assms(1) have ne: "on_time (real_of_int i) (timeline w)"
    and one: "one_at_a_time (timeline w)"
    and due: "due_after_completion (real_of_int i) w"
    and dist: "distinct (map ev_target (queue w))"
    and past: "returned_by (clock w) (timeline w)"
    and qa: "list_all (\<lambda>e. ev_target e < length (heap w)) (queue w)"
    and ta: "list_all (\<lambda>r. fst r < length (heap w)) (timeline w)"
    by (simp_all add: well_scheduled_def)
  have 1: "on_time (real_of_int i) (timeline ?w)"
    using ne assms(3) by (simp add: run_and_schedule_timeline)
  have 2: "one_at_a_time (timeline ?w)"
    using one past by (simp add: run_and_schedule_timeline)
  have 3: "due_after_completion (real_of_int i) ?w"
    using due assms(2)
    by (auto simp: due_after_completion_def run_and_schedule_timeline run_and_schedule_queue
          list_all_iff split: option.splits)
  have 4: "distinct (map ev_target (queue ?w))"
    using dist assms(2) by (auto simp: run_and_schedule_queue list_all_iff)
  have 5: "returned_by (clock ?w) (timeline ?w)"
    by (simp add: run_and_schedule_timeline run_and_schedule_clock)
  have 6: "list_all (\<lambda>e. ev_target e < length (heap ?w)) (queue ?w)"
    using qa assms(4) by (simp add: run_and_schedule_queue run_and_schedule_heap)
  have 7: "list_all (\<lambda>r. fst r < length (heap ?w)) (timeline ?w)"
    using ta assms(4) by (simp add: run_and_schedule_timeline run_and_schedule_heap)
  from 1 2 3 4 5 6 7 show "well_scheduled (real_of_int i) ?w"
    by (simp add: well_scheduled_def)
  show "settled ?w"
    by (simp add: settled_def run_and_schedule_timeline run_and_schedule_clock)
qed

lemma well_scheduled_pop:
  assumes "well_scheduled d w" and "e \<in> set (queue w)"
  shows "well_scheduled d (w\<lparr>queue := remove1 e (queue w)\<rparr>)"
    and "list_all (\<lambda>x. ev_target x \<noteq> ev_target e) (remove1 e (queue w))"
proof -
  from assms(1) have dist: "distinct (map ev_target (queue w))"
    by (simp add: well_scheduled_def)
  have sub: "set (remove1 e (queue w)) \<subseteq> set (queue w)"
    by (rule set_remove1_subset)
  from assms(1) sub show "well_scheduled d (w\<lparr>queue := remove1 e (queue w)\<rparr>)"
    by (auto simp: well_scheduled_def due_after_completion_def list_all_iff
          distinct_remove1_map)
  from remove1_target_gone [OF dist assms(2)]
  show "list_all (\<lambda>x. ev_target x \<noteq> ev_target e) (remove1 e (queue w))"
    by (simp add: list_all_iff)
qed

lemma well_scheduled_step:
  assumes "well_scheduled (real_of_int i) w" and "settled w"
      and "sched_step env i w = Some w'"
  shows "well_scheduled (real_of_int i) w' \<and> settled w'"
proof -
  from assms(3) obtain e where e: "earliest (queue w) = Some e"
    by (auto simp: sched_step_def split: option.splits)
  then have mem: "e \<in> set (queue w)"
    by (rule earliest_in)
  from assms(1) have past: "returned_by (clock w) (timeline w)"
    by (simp add: well_scheduled_def)
  show ?thesis
  proof (cases "clock w < ev_time e")
    case True
    with assms(3) e have w': "w' = w\<lparr>clock := clock w + (ev_time e - clock w)\<rparr>"
      by (simp add: sched_step_def)
    from True past have "returned_by (ev_time e) (timeline w)"
      by (auto intro: returned_by_later)
    with assms(1) e show ?thesis
      unfolding w'
      by (simp add: well_scheduled_def due_after_completion_def settled_def)
  next
    case False
    let ?w = "w\<lparr>queue := remove1 e (queue w)\<rparr>"
    from False assms(3) e have w': "w' = run_and_schedule env i ?w (ev_target e)"
      by (simp add: sched_step_def)
    from assms(1) mem obtain p where p: "previous_end (ev_target e) (timeline w) = Some p"
      and t: "ev_time e = p + real_of_int i"
      by (auto simp: well_scheduled_def due_after_completion_def list_all_iff
            split: option.splits)
    from p have nonempty: "timeline w \<noteq> []"
      by auto
    have "starts_at (clock w) (p + real_of_int i) (timeline w)"
    proof (cases "returned_at (clock w) (timeline w)")
      case True
      with False t nonempty show ?thesis
        by (simp add: starts_at_returned)
    next
      case no: False
      with assms(2) e have "ev_time e = clock w"
        by (simp add: settled_def)
      with t past show ?thesis
        by (simp add: starts_at_due)
    qed
    with p have prev: "case previous_end (ev_target e) (timeline ?w) of
        None \<Rightarrow> True | Some p \<Rightarrow> starts_at (clock ?w) (p + real_of_int i) (timeline ?w)"
      by simp
    from assms(1) mem have lt: "ev_target e < length (heap ?w)"
      by (simp add: well_scheduled_def list_all_iff)
    from well_scheduled_pop [OF assms(1) mem] have a: "well_scheduled (real_of_int i) ?w"
      and b: "list_all (\<lambda>x. ev_target x \<noteq> ev_target e) (queue ?w)"
      by simp_all
    from well_scheduled_run_and_schedule [OF a b prev lt, of env] show ?thesis
      unfolding w' by simp
  qed
qed

lemma well_scheduled_sched_run:
  "well_scheduled (real_of_int i) w \<Longrightarrow> settled w \<Longrightarrow>
   well_scheduled (real_of_int i) (fst (sched_run n env i w)) \<and> settled (fst (sched_run n env i w))"
proof (induction n arbitrary: w)
  case 0
  then show ?case by simp
next
  case (Suc n)
  show ?case
  proof (cases "sched_step env i w")
    case None
    then have "fst (sched_run (Suc n) env i w) = w" by simp
    with Suc.prems show ?thesis by (simp only:)
  next
    case (Some w')
    then have run: "sched_run (Suc n) env i w = sched_run n env i w'" by simp
    from well_scheduled_step [OF Suc.prems Some]
    have "well_scheduled (real_of_int i) w'" and "settled w'"
      by blast+
    then show ?thesis
      unfolding run by (rule Suc.IH)
  qed
qed

lemma well_scheduled_start_scalers:
  "well_scheduled (real_of_int i) w \<Longrightarrow> settled w \<Longrightarrow>
   well_scheduled (real_of_int i) (start_scalers env i config w)
   \<and> settled (start_scalers env i config w)"
proof (induction config arbitrary: w)
  case Nil
  then show ?case by simp
next
  case (Cons item config)
  show ?case
  proof (cases "Scaler_init item env")
    case (Inl e)
    let ?w = "w\<lparr>journal := journal w @ [Log (FailedToInitialise item e)]\<rparr>"
    from Cons.prems have "well_scheduled (real_of_int i) ?w" and "settled ?w"
      by (simp_all add: well_scheduled_def due_after_completion_def settled_def)
    then have "well_scheduled (real_of_int i) (start_scalers env i config ?w)
        \<and> settled (start_scalers env i config ?w)"
      by (rule Cons.IH)
    with Inl show ?thesis by simp
  next
    case (Inr s)
    let ?w = "w\<lparr>heap := heap w @ [s], journal := journal w @ [Log Starting]\<rparr>"
    from Cons.prems have ws: "well_scheduled (real_of_int i) ?w"
      by (auto simp: well_scheduled_def due_after_completion_def list_all_iff)
    from Cons.prems have fresh: "list_all (\<lambda>e. ev_target e \<noteq> length (heap w)) (queue ?w)"
      by (auto simp: well_scheduled_def list_all_iff)
    from Cons.prems have "previous_end (length (heap w)) (timeline ?w) = None"
      by (simp add: well_scheduled_def previous_end_fresh)
    then have prev: "case previous_end (length (heap w)) (timeline ?w) of
        None \<Rightarrow> True
      | Some p \<Rightarrow> starts_at (clock ?w) (p + real_of_int i) (timeline ?w)"
      by simp
    have lt: "length (heap w) < length (heap ?w)"
      by simp
    from well_scheduled_run_and_schedule [OF ws fresh prev lt, of env]
    have "well_scheduled (real_of_int i) (run_and_schedule env i ?w (length (heap w)))"
      and "settled (run_and_schedule env i ?w (length (heap w)))"
      by simp_all
    then have "well_scheduled (real_of_int i)
        (start_scalers env i config (run_and_schedule env i ?w (length (heap w))))
      \<and> settled (start_scalers env i config (run_and_schedule env i ?w (length (heap w))))"
      by (rule Cons.IH)
    with Inr show ?thesis by simp
  qed
qed

text \<open>The loop does not stall: a pass that sleeps is followed by a pass that calls.\<close>

lemma sched_run_calls:
  assumes "queue w \<noteq> []"
  shows "length (timeline w)
           + (n + (if map_option ev_time (earliest (queue w)) = Some (clock w) then 1 else 0)) div 2
         \<le> length (timeline (fst (sched_run n env i w)))"
  using assms
proof (induction n arbitrary: w)
  case 0
  then show ?case by simp
next
  case (Suc n)
  from Suc.prems obtain w' where step: "sched_step env i w = Some w'"
    using sched_step_None [of env i w] by (cases "sched_step env i w") auto
  then have run: "sched_run (Suc n) env i w = sched_run n env i w'"
    by simp
  define L where "L = length (timeline (fst (sched_run n env i w')))"
  define s :: nat where
    "s = (if map_option ev_time (earliest (queue w)) = Some (clock w) then 1 else 0)"
  define s' :: nat where
    "s' = (if map_option ev_time (earliest (queue w')) = Some (clock w') then 1 else 0)"
  have goal: "length (timeline w) + (Suc n + s) div 2 \<le> L"
    using step
  proof (cases rule: sched_step_cases)
    case (sleep e)
    then have q: "queue w' \<noteq> []" and t: "timeline w' = timeline w"
      using Suc.prems by auto
    from sleep have "s' = 1" and "s = 0"
      by (simp_all add: s'_def s_def)
    moreover from Suc.IH [OF q] have "length (timeline w') + (n + s') div 2 \<le> L"
      by (simp add: L_def s'_def)
    ultimately show ?thesis
      using t by simp
  next
    case (call e)
    then have q: "queue w' \<noteq> []" and t: "length (timeline w') = Suc (length (timeline w))"
      by (simp_all add: run_and_schedule_fields)
    from Suc.IH [OF q] have "length (timeline w') + (n + s') div 2 \<le> L"
      by (simp add: L_def s'_def)
    moreover have "s \<le> 1"
      by (simp add: s_def)
    then have "(Suc n + s) div 2 \<le> Suc (n div 2)"
      by linarith
    moreover have "n div 2 \<le> (n + s') div 2"
      by (simp add: div_le_mono)
    ultimately show ?thesis
      using t by linarith
  qed
  then show ?case
    unfolding run L_def s_def by simp
qed

section \<open>The first calls\<close>

text \<open>
  The loop that creates the objects makes one call for every object.
\<close>

lemma start_scalers_timeline_length:
  "length (timeline (start_scalers env i config w))
     = length (timeline w) + length (constructed env config)"
proof (induction config arbitrary: w)
  case Nil
  then show ?case by simp
next
  case (Cons item config)
  show ?case
  proof (cases "Scaler_init item env")
    case (Inl e)
    with Cons.IH [of "w\<lparr>journal := journal w @ [Log (FailedToInitialise item e)]\<rparr>"]
    show ?thesis by simp
  next
    case (Inr s)
    with Cons.IH [of "run_and_schedule env i
        (w\<lparr>heap := heap w @ [s], journal := journal w @ [Log Starting]\<rparr>) (length (heap w))"]
    show ?thesis by (simp add: run_and_schedule_timeline)
  qed
qed

section \<open>First in, first out\<close>

text \<open>
  When no call takes a negative time, a new event is due no earlier than the events in
  the queue, so the queue is kept in the order of entry and the scheduler takes its head:
  the targets are called in turn.
\<close>

lemma before_asym: "before a b \<Longrightarrow> \<not> before b a"
  by (auto simp: before_def)

lemma earliest_sorted: "sorted_wrt before (e # es) \<Longrightarrow> earliest (e # es) = Some e"
proof (induction es arbitrary: e)
  case Nil
  then show ?case by simp
next
  case (Cons x xs)
  from Cons.prems have "sorted_wrt before (x # xs)" and "before e x"
    by simp_all
  with Cons.IH [of x] have "earliest (x # xs) = Some x" and "\<not> before x e"
    by (simp_all add: before_asym)
  then show ?case
    by (simp del: earliest.simps add: earliest.simps(2) [of e "x # xs"])
qed

lemma fifo_run_and_schedule:
  assumes "fifo (real_of_int i) w" and "0 \<le> duration (answers env (length (timeline w)))"
  shows "fifo (real_of_int i) (run_and_schedule env i w a)"
proof -
  let ?d = "duration (answers env (length (timeline w)))"
  let ?new = "\<lparr>ev_time = clock w + ?d + real_of_int i, ev_priority = 1,
               ev_seq = next_seq w, ev_target = a\<rparr>"
  from assms(1) have srt: "sorted_wrt before (queue w)"
    and each: "\<forall>e \<in> set (queue w). ev_seq e < next_seq w \<and> ev_priority e = 1
                 \<and> ev_time e \<le> clock w + real_of_int i"
    by (simp_all add: fifo_def list_all_iff)
  from each assms(2) have "\<forall>e \<in> set (queue w). before e ?new"
    by (auto simp: before_def)
  with srt have 1: "sorted_wrt before (queue w @ [?new])"
    by (simp add: sorted_wrt_append)
  from each assms(2) have 2: "\<forall>e \<in> set (queue w @ [?new]).
      ev_seq e < Suc (next_seq w) \<and> ev_priority e = 1
      \<and> ev_time e \<le> clock w + ?d + real_of_int i"
    by (auto simp: less_Suc_eq)
  from 1 2 show ?thesis
    by (simp add: fifo_def list_all_iff run_and_schedule_fields)
qed

lemma fifo_step:
  assumes "fifo (real_of_int i) w" and "\<forall>k. 0 \<le> duration (answers env k)"
      and "sched_step env i w = Some w'"
  obtains (sleep) e es where "queue w = e # es" and "clock w < ev_time e"
      and "w' = w\<lparr>clock := clock w + (ev_time e - clock w)\<rparr>" and "fifo (real_of_int i) w'"
    | (call) e es where "queue w = e # es" and "\<not> clock w < ev_time e"
      and "w' = run_and_schedule env i (w\<lparr>queue := es\<rparr>) (ev_target e)"
      and "fifo (real_of_int i) w'"
proof -
  from assms(3) have "queue w \<noteq> []"
    using sched_step_None [of env i w] by auto
  then obtain e es where q: "queue w = e # es"
    by (cases "queue w") auto
  from assms(1) q have e: "earliest (queue w) = Some e"
    by (simp del: earliest.simps add: fifo_def earliest_sorted)
  show ?thesis
  proof (cases "clock w < ev_time e")
    case True
    with assms(3) e have w': "w' = w\<lparr>clock := clock w + (ev_time e - clock w)\<rparr>"
      by (simp add: sched_step_def)
    from assms(1) True have "fifo (real_of_int i) w'"
      unfolding w' by (auto simp: fifo_def list_all_iff)
    with q True w' show ?thesis by (rule sleep)
  next
    case False
    with assms(3) e q have w': "w' = run_and_schedule env i (w\<lparr>queue := es\<rparr>) (ev_target e)"
      by (simp add: sched_step_def)
    from assms(1) q have "fifo (real_of_int i) (w\<lparr>queue := es\<rparr>)"
      by (simp add: fifo_def)
    with assms(2) have "fifo (real_of_int i) w'"
      unfolding w' by (simp add: fifo_run_and_schedule)
    with q False w' show ?thesis by (rule call)
  qed
qed

lemma fifo_sched_run:
  assumes "\<forall>k. 0 \<le> duration (answers env k)"
  shows "fifo (real_of_int i) w \<Longrightarrow> fifo (real_of_int i) (fst (sched_run n env i w))"
proof (induction n arbitrary: w)
  case 0
  then show ?case by simp
next
  case (Suc n)
  show ?case
  proof (cases "sched_step env i w")
    case None
    then have "fst (sched_run (Suc n) env i w) = w" by simp
    with Suc.prems show ?thesis by (simp only:)
  next
    case (Some w')
    then have run: "sched_run (Suc n) env i w = sched_run n env i w'" by simp
    from Suc.prems assms Some have "fifo (real_of_int i) w'"
      by (rule fifo_step)
    then show ?thesis
      unfolding run by (rule Suc.IH)
  qed
qed

lemma fifo_start_scalers:
  assumes "\<forall>k. 0 \<le> duration (answers env k)"
  shows "fifo (real_of_int i) w \<Longrightarrow> fifo (real_of_int i) (start_scalers env i config w)"
proof (induction config arbitrary: w)
  case Nil
  then show ?case by simp
next
  case (Cons item config)
  show ?case
  proof (cases "Scaler_init item env")
    case (Inl e)
    let ?w = "w\<lparr>journal := journal w @ [Log (FailedToInitialise item e)]\<rparr>"
    from Cons.prems have "fifo (real_of_int i) ?w"
      by (simp add: fifo_def)
    then have "fifo (real_of_int i) (start_scalers env i config ?w)"
      by (rule Cons.IH)
    with Inl show ?thesis by simp
  next
    case (Inr s)
    let ?w = "w\<lparr>heap := heap w @ [s], journal := journal w @ [Log Starting]\<rparr>"
    from Cons.prems have "fifo (real_of_int i) ?w"
      by (simp add: fifo_def)
    with assms have "fifo (real_of_int i) (run_and_schedule env i ?w (length (heap w)))"
      by (simp add: fifo_run_and_schedule)
    then have "fifo (real_of_int i)
        (start_scalers env i config (run_and_schedule env i ?w (length (heap w))))"
      by (rule Cons.IH)
    with Inr show ?thesis by simp
  qed
qed

lemma sched_run_add:
  "fst (sched_run (m + k) env i w) = fst (sched_run k env i (fst (sched_run m env i w)))"
proof (induction m arbitrary: w)
  case 0
  then show ?case by simp
next
  case (Suc m)
  show ?case
  proof (cases "sched_step env i w")
    case None
    then show ?thesis by (cases k) simp_all
  next
    case (Some w')
    with Suc.IH [of w'] show ?thesis by simp
  qed
qed

lemma calls_of_step:
  "sched_step env i w = Some w' \<Longrightarrow> calls_of a (timeline w) \<le> calls_of a (timeline w')"
  by (erule sched_step_cases) (simp_all add: calls_of_def run_and_schedule_timeline)

lemma calls_of_sched_run:
  "calls_of a (timeline w) \<le> calls_of a (timeline (fst (sched_run n env i w)))"
proof (induction n arbitrary: w)
  case 0
  then show ?case by simp
next
  case (Suc n)
  show ?case
  proof (cases "sched_step env i w")
    case None
    then show ?thesis by simp
  next
    case (Some w')
    from calls_of_step [OF Some, of a] Suc.IH [of w'] Some show ?thesis
      by simp
  qed
qed

text \<open>
  From any state with events in the queue, one or two passes of the loop call the target
  of the first event; so the target of the event at place \<open>j\<close> is called within
  \<open>2 * (j + 1)\<close> passes.
\<close>

lemma fifo_next_call:
  assumes "fifo (real_of_int i) w" and "\<forall>k. 0 \<le> duration (answers env k)"
      and "queue w = e # es"
  obtains p w2 s f new where "1 \<le> p" and "p \<le> 2" and "fst (sched_run p env i w) = w2"
      and "fifo (real_of_int i) w2"
      and "timeline w2 = (ev_target e, s, f) # timeline w" and "queue w2 = es @ [new]"
proof -
  from assms(3) obtain w' where step: "sched_step env i w = Some w'"
    using sched_step_None [of env i w] by (cases "sched_step env i w") auto
  from assms(1,2) step show ?thesis
  proof (cases rule: fifo_step)
    case (call e' es')
    with assms(3) have w': "w' = run_and_schedule env i (w\<lparr>queue := es\<rparr>) (ev_target e)"
      by simp
    have "(1::nat) \<le> 1" and "(1::nat) \<le> 2" by simp_all
    moreover from step have "fst (sched_run 1 env i w) = w'" by simp
    moreover note call(4)
    moreover have "timeline w' = (ev_target e, clock w,
        clock w + duration (answers env (length (timeline w)))) # timeline w"
      unfolding w' by (simp add: run_and_schedule_timeline)
    moreover have "queue w' = es @ [\<lparr>ev_time = clock w
        + duration (answers env (length (timeline w))) + real_of_int i,
        ev_priority = 1, ev_seq = next_seq w, ev_target = ev_target e\<rparr>]"
      unfolding w' by (simp add: run_and_schedule_queue)
    ultimately show ?thesis by (rule that)
  next
    case (sleep e' es')
    with assms(3) have w': "w' = w\<lparr>clock := clock w + (ev_time e - clock w)\<rparr>"
      and q': "queue w' = e # es"
      by simp_all
    from q' obtain w'' where step': "sched_step env i w' = Some w''"
      using sched_step_None [of env i w'] by (cases "sched_step env i w'") auto
    from sleep(4) assms(2) step' show ?thesis
    proof (cases rule: fifo_step)
      case inner: (sleep x xs)
      with q' w' show ?thesis by simp
    next
      case inner: (call x xs)
      with q' have w'': "w'' = run_and_schedule env i (w'\<lparr>queue := es\<rparr>) (ev_target e)"
        by simp
      have "(1::nat) \<le> 2" and "(2::nat) \<le> 2" by simp_all
      moreover from step step' have "fst (sched_run 2 env i w) = w''"
        by (simp add: numeral_2_eq_2)
      moreover note inner(4)
      moreover have "timeline w'' = (ev_target e, clock w',
          clock w' + duration (answers env (length (timeline w')))) # timeline w"
        unfolding w'' by (simp add: run_and_schedule_timeline w')
      moreover have "queue w'' = es @ [\<lparr>ev_time = clock w'
          + duration (answers env (length (timeline w'))) + real_of_int i,
          ev_priority = 1, ev_seq = next_seq w', ev_target = ev_target e\<rparr>]"
        unfolding w'' by (simp add: run_and_schedule_queue)
      ultimately show ?thesis by (rule that)
    qed
  qed
qed

lemma turn_comes:
  assumes "\<forall>k. 0 \<le> duration (answers env k)"
  shows "fifo (real_of_int i) w \<Longrightarrow> j < length (queue w) \<Longrightarrow>
         calls_of (ev_target (queue w ! j)) (timeline w)
           < calls_of (ev_target (queue w ! j)) (timeline (fst (sched_run (2 * Suc j) env i w)))"
proof (induction j arbitrary: w)
  case 0
  then obtain e es where q: "queue w = e # es"
    by (cases "queue w") auto
  from "0.prems"(1) assms q obtain p w2 s f new where p: "1 \<le> p" "p \<le> 2"
    and w2: "fst (sched_run p env i w) = w2"
    and t: "timeline w2 = (ev_target e, s, f) # timeline w"
    by (rule fifo_next_call)
  from p have "2 * Suc 0 = p + (2 - p)" by simp
  then have "fst (sched_run (2 * Suc 0) env i w) = fst (sched_run (2 - p) env i w2)"
    using sched_run_add [of p "2 - p" env i w] w2 by simp
  moreover have "calls_of (ev_target e) (timeline w2)
      \<le> calls_of (ev_target e) (timeline (fst (sched_run (2 - p) env i w2)))"
    by (rule calls_of_sched_run)
  moreover from t have "calls_of (ev_target e) (timeline w) < calls_of (ev_target e) (timeline w2)"
    by (simp add: calls_of_def)
  ultimately show ?case
    using q by simp
next
  case (Suc j)
  then obtain e es where q: "queue w = e # es"
    by (cases "queue w") auto
  let ?a = "ev_target (queue w ! Suc j)"
  from Suc.prems(1) assms q obtain p w2 s f new where p: "1 \<le> p" "p \<le> 2"
    and w2: "fst (sched_run p env i w) = w2" and f2: "fifo (real_of_int i) w2"
    and q2: "queue w2 = es @ [new]"
    by (rule fifo_next_call)
  from Suc.prems(2) q have j: "j < length es" by simp
  with q2 have j2: "j < length (queue w2)" and same: "queue w2 ! j = queue w ! Suc j"
    using q by (simp_all add: nth_append)
  from Suc.IH [OF f2 j2] same
  have "calls_of ?a (timeline w2) < calls_of ?a (timeline (fst (sched_run (2 * Suc j) env i w2)))"
    by simp
  moreover have "calls_of ?a (timeline w) \<le> calls_of ?a (timeline w2)"
    using calls_of_sched_run [of ?a w p env i] w2 by simp
  moreover from p have "2 * Suc (Suc j) = p + (2 * Suc j + (2 - p))" by simp
  then have "fst (sched_run (2 * Suc (Suc j)) env i w)
      = fst (sched_run (2 * Suc j + (2 - p)) env i w2)"
    using sched_run_add [of p "2 * Suc j + (2 - p)" env i w] w2 by simp
  then have "fst (sched_run (2 * Suc (Suc j)) env i w)
      = fst (sched_run (2 - p) env i (fst (sched_run (2 * Suc j) env i w2)))"
    by (simp only: sched_run_add)
  moreover have "calls_of ?a (timeline (fst (sched_run (2 * Suc j) env i w2)))
      \<le> calls_of ?a (timeline (fst (sched_run (2 - p) env i
            (fst (sched_run (2 * Suc j) env i w2)))))"
    by (rule calls_of_sched_run)
  ultimately show ?case
    by simp
qed

lemma armed_place:
  assumes "all_armed w" and "distinct (map ev_target (queue w))" and "a < length (heap w)"
  obtains j where "j < length (queue w)" and "ev_target (queue w ! j) = a"
    and "Suc j \<le> length (heap w)"
proof -
  from assms(1) have img: "ev_target ` set (queue w) = {..<length (heap w)}"
    by (simp add: all_armed_iff)
  from assms(2) have "card (ev_target ` set (queue w)) = length (queue w)"
    using distinct_card [of "map ev_target (queue w)"] by simp
  with img have len: "length (queue w) = length (heap w)"
    by simp
  from img assms(3) have "a \<in> ev_target ` set (queue w)"
    by simp
  then obtain j where "j < length (queue w)" and "ev_target (queue w ! j) = a"
    by (auto simp: in_set_conv_nth)
  with len show ?thesis
    by (intro that [of j]) simp_all
qed

lemma every_target_called_again:
  assumes "\<forall>k. 0 \<le> duration (answers env k)" and "fifo (real_of_int i) w"
      and "all_armed w" and "distinct (map ev_target (queue w))" and "a < length (heap w)"
  shows "calls_of a (timeline w)
           < calls_of a (timeline (fst (sched_run (2 * length (heap w)) env i w)))"
proof -
  from assms(3,4,5) obtain j where j: "j < length (queue w)" "ev_target (queue w ! j) = a"
    and le: "Suc j \<le> length (heap w)"
    by (rule armed_place)
  define m where "m = 2 * Suc j"
  define k where "k = 2 * length (heap w) - m"
  from le have sum: "2 * length (heap w) = m + k"
    by (simp add: m_def k_def)
  let ?w = "fst (sched_run m env i w)"
  from turn_comes [OF assms(1,2) j(1)] j(2)
  have "calls_of a (timeline w) < calls_of a (timeline ?w)"
    by (simp only: m_def)
  moreover have "fst (sched_run (2 * length (heap w)) env i w) = fst (sched_run k env i ?w)"
    unfolding sum by (rule sched_run_add)
  moreover have "calls_of a (timeline ?w) \<le> calls_of a (timeline (fst (sched_run k env i ?w)))"
    by (rule calls_of_sched_run)
  ultimately show ?thesis
    by (simp only:)
qed

section \<open>The cadence of the calls\<close>

text \<open>
  Claim C8, as the program has it. At every moment of a run of \<^verbatim>\<open>run_scalers\<close>:
  \<^item> every target has exactly one event in the queue of the one scheduler, and it is
    due exactly \<open>interval\<close> seconds after the return of the target's latest call;
  \<^item> every call for a target that was called before started exactly \<open>interval\<close> seconds
    after the return of the target's call before it when the call made just before, of
    whatever target, had returned by then, and at the return of that call otherwise;
  \<^item> the calls of all targets are made one at a time, each starting when the call before
    it has returned: the process has one scheduler and one thread, so a call that is slow
    holds back the events of the other targets that fall due meanwhile;
  \<^item> the loop of the scheduler does not stall: of two passes in a row one makes a call, so
    after \<open>n\<close> passes there are the first calls of all targets and \<open>n div 2\<close> more;
  \<^item> when no call takes a negative time, the targets are called in turn: within two passes
    for each target, every target has been called again.
\<close>

theorem calls_spaced_and_in_turn:
  assumes "run_scalers n env config interval = Inr (w, left)"
  shows "all_armed w \<and> distinct (map ev_target (queue w))
       \<and> due_after_completion (real_of_int interval) w
       \<and> on_time (real_of_int interval) (timeline w)
       \<and> one_at_a_time (timeline w)
       \<and> (constructed env config \<noteq> [] \<longrightarrow>
            length (constructed env config) + n div 2 \<le> length (timeline w))
       \<and> ((\<forall>k. 0 \<le> duration (answers env k))
            \<and> run_scalers (n + 2 * length (constructed env config)) env config interval
                 = Inr (w', left') \<longrightarrow>
            (\<forall>a < length (constructed env config).
               calls_of a (timeline w) < calls_of a (timeline w')))"
proof -
  let ?w0 = "\<lparr>clock = start_clock env, queue = [], next_seq = 0, heap = [],
              journal = [], timeline = []\<rparr>"
  let ?w1 = "start_scalers env interval config ?w0"
  from assms have w: "w = fst (sched_run n env interval ?w1)"
    by (auto simp: run_scalers_def split: option.splits)
  have "well_scheduled (real_of_int interval) ?w0" and "settled ?w0"
    by (simp_all add: well_scheduled_def due_after_completion_def settled_def)
  then have "well_scheduled (real_of_int interval) ?w1 \<and> settled ?w1"
    by (rule well_scheduled_start_scalers)
  then have "well_scheduled (real_of_int interval) ?w1" and "settled ?w1"
    by blast+
  then have "well_scheduled (real_of_int interval) w \<and> settled w"
    unfolding w by (rule well_scheduled_sched_run)
  then have ws: "distinct (map ev_target (queue w))"
    "due_after_completion (real_of_int interval) w"
    "on_time (real_of_int interval) (timeline w)" "one_at_a_time (timeline w)"
    by (simp_all add: well_scheduled_def)
  have "all_armed ?w0"
    by (simp add: all_armed_def)
  note s = all_armed_start_scalers [OF this, of env interval config]
  from s have a1: "all_armed ?w1" by blast
  from s have len1: "length (heap ?w1) = length (constructed env config)"
    by simp
  note k = all_armed_sched_run [OF a1, of n env interval]
  from k have aw: "all_armed w"
    unfolding w by blast
  from k len1 have len: "length (heap w) = length (constructed env config)"
    unfolding w by simp
  have calls: "length (constructed env config) + n div 2 \<le> length (timeline w)"
    if "constructed env config \<noteq> []"
  proof -
    from a1 len1 that have "queue ?w1 \<noteq> []"
      by (auto simp: all_armed_iff)
    from sched_run_calls [OF this, of n env interval]
    have "length (timeline ?w1) + n div 2 \<le> length (timeline w)"
      unfolding w by (simp split: if_splits)
    then show ?thesis
      by (simp add: start_scalers_timeline_length)
  qed
  have again: "\<forall>a < length (constructed env config).
                 calls_of a (timeline w) < calls_of a (timeline w')"
    if nonneg: "\<forall>k. 0 \<le> duration (answers env k)"
      and later: "run_scalers (n + 2 * length (constructed env config)) env config interval
                    = Inr (w', left')"
  proof -
    from later have "w' = fst (sched_run (n + 2 * length (constructed env config))
                                 env interval ?w1)"
      by (auto simp: run_scalers_def split: option.splits)
    also have "\<dots> = fst (sched_run (2 * length (constructed env config)) env interval
                         (fst (sched_run n env interval ?w1)))"
      by (rule sched_run_add)
    finally have w': "w' = fst (sched_run (2 * length (constructed env config)) env interval w)"
      by (simp only: w)
    have "fifo (real_of_int interval) ?w0"
      by (simp add: fifo_def)
    with nonneg have "fifo (real_of_int interval) ?w1"
      by (rule fifo_start_scalers)
    with nonneg have f: "fifo (real_of_int interval) w"
      unfolding w by (rule fifo_sched_run)
    from every_target_called_again [OF nonneg f aw ws(1)] show ?thesis
      unfolding w' len by blast
  qed
  from aw ws calls again show ?thesis
    by blast
qed

theorem calls_spaced_and_in_turn_witness:
  "on_time 60 [(1, 160, 160), (0, 60, 160), (1, 0, 10), (0, 0, 0)]
   \<and> one_at_a_time [(1, 160, 160), (0, 60, 160), (1, 0, 10), (0, 0, 0)]
   \<and> (2::nat) + 3 div 2 \<le> length [(1, 160, 160), (0, 60, 160), (1 :: nat, 0 :: real, 10 :: real), (0, 0, 0)]
   \<and> calls_of 0 [(1, 160, 160), (0, 60, 160), (1, 0, 10), (0, 0, 0)]
       < calls_of 0 (timeline (fst (sched_run 7 (example_env example_slow) 60
           (start_scalers (example_env example_slow) 60
              [example_item ''cpu'', example_item ''cpu'']
              \<lparr>clock = 0, queue = [], next_seq = 0, heap = [], journal = [],
               timeline = []\<rparr>))))
   \<and> calls_of 1 [(1, 160, 160), (0, 60, 160), (1, 0, 10), (0, 0, 0)]
       < calls_of 1 (timeline (fst (sched_run 7 (example_env example_slow) 60
           (start_scalers (example_env example_slow) 60
              [example_item ''cpu'', example_item ''cpu'']
              \<lparr>clock = 0, queue = [], next_seq = 0, heap = [], journal = [],
               timeline = []\<rparr>))))"
proof -
  let ?w1 = "start_scalers (example_env example_slow) 60 [example_item ''cpu'', example_item ''cpu'']
         \<lparr>clock = 0, queue = [], next_seq = 0, heap = [], journal = [], timeline = []\<rparr>"
  let ?r = "sched_run 3 (example_env example_slow) 60 ?w1"
  let ?r7 = "sched_run 7 (example_env example_slow) 60 ?w1"
  have c: "constructed (example_env example_slow) [example_item ''cpu'', example_item ''cpu'']
             = [example_scaler, example_scaler]"
    by (simp add: example_init_ok)
  have eq: "run_scalers 3 (example_env example_slow) [example_item ''cpu'', example_item ''cpu''] 60
          = Inr (fst ?r, snd ?r)"
    by (simp add: run_scalers_def example_set_config)
  have eq7: "run_scalers (3 + 2 * length (constructed (example_env example_slow)
               [example_item ''cpu'', example_item ''cpu'']))
             (example_env example_slow) [example_item ''cpu'', example_item ''cpu''] 60
          = Inr (fst ?r7, snd ?r7)"
    unfolding c by (simp add: run_scalers_def example_set_config)
  have nonneg: "\<forall>k. 0 \<le> duration (answers (example_env example_slow) k)"
    by (simp add: example_duration example_slow_def)
  have t: "timeline (fst ?r) = [(1, 160, 160), (0, 60, 160), (1, 0, 10), (0, 0, 0)]"
    by (rule example_timeline)
  from calls_spaced_and_in_turn [OF eq, of "fst ?r7" "snd ?r7"] nonneg eq7
  have "on_time (real_of_int 60) (timeline (fst ?r)) \<and> one_at_a_time (timeline (fst ?r))
      \<and> (constructed (example_env example_slow) [example_item ''cpu'', example_item ''cpu''] \<noteq> []
          \<longrightarrow> length (constructed (example_env example_slow)
                         [example_item ''cpu'', example_item ''cpu'']) + 3 div 2
                \<le> length (timeline (fst ?r)))
      \<and> (\<forall>a < length (constructed (example_env example_slow)
                         [example_item ''cpu'', example_item ''cpu'']).
            calls_of a (timeline (fst ?r)) < calls_of a (timeline (fst ?r7)))"
    by blast
  then have "on_time 60 [(1, 160, 160), (0, 60, 160), (1, 0, 10), (0, 0, 0)]
      \<and> one_at_a_time [(1, 160, 160), (0, 60, 160), (1, 0, 10), (0, 0, 0)]
      \<and> (2::nat) + 3 div 2
          \<le> length [(1, 160, 160), (0, 60, 160), (1 :: nat, 0 :: real, 10 :: real), (0, 0, 0)]
      \<and> (\<forall>a<2. calls_of a [(1, 160, 160), (0, 60, 160), (1, 0, 10), (0, 0, 0)]
            < calls_of a (timeline (fst ?r7)))"
    unfolding t c by simp
  then show ?thesis
    by simp
qed

text \<open>
  Claim C8 as stated has every call start exactly \<open>interval\<close> seconds after the return of
  the target's call before it, and no target delayed by another. With two targets and an
  interval of 60 seconds, the first call of the second target returns at 10, so its event
  is due at 70; the second call of the first target runs from 60 to 160, and the second
  target is called at 160 only.
\<close>

theorem slow_call_delays_others_counterexample:
  "\<not> isl (run_scalers 3 (example_env example_slow)
            [example_item ''cpu'', example_item ''cpu''] 60)
   \<and> timeline (fst (projr (run_scalers 3 (example_env example_slow)
            [example_item ''cpu'', example_item ''cpu''] 60)))
       = [(1, 160, 160), (0, 60, 160), (1, 0, 10), (0, 0, 0)]
   \<and> \<not> on_cadence 60 (timeline (fst (projr (run_scalers 3 (example_env example_slow)
            [example_item ''cpu'', example_item ''cpu''] 60))))"
proof -
  let ?r = "sched_run 3 (example_env example_slow) 60
      (start_scalers (example_env example_slow) 60 [example_item ''cpu'', example_item ''cpu'']
         \<lparr>clock = 0, queue = [], next_seq = 0, heap = [], journal = [], timeline = []\<rparr>)"
  have eq: "run_scalers 3 (example_env example_slow) [example_item ''cpu'', example_item ''cpu''] 60
          = Inr ?r"
    by (simp add: run_scalers_def example_set_config)
  have t: "timeline (fst ?r) = [(1, 160, 160), (0, 60, 160), (1, 0, 10), (0, 0, 0)]"
    by (rule example_timeline)
  have n: "\<not> on_cadence 60 [(1, 160, 160), (0, 60, 160), (1, 0, 10), (0, 0, 0)]"
    by simp
  show ?thesis
    unfolding eq sum.sel sum.disc t using n by simp
qed

end
